theory Spec2Isabelle
  imports Main
begin

section \<open>The chunked cipher driver of mpags-cipher\<close>

text \<open>
  The program under study is the \<^verbatim>\<open>main\<close> function of \<^verbatim>\<open>mpags-cipher.cpp\<close>.
  It reads characters, passes each through \<^verbatim>\<open>transformChar\<close>, asks
  \<^verbatim>\<open>cipherFactory\<close> for a cipher, cuts the text into \<^verbatim>\<open>j = 4\<close> pieces with
  \<^verbatim>\<open>std::string::substr\<close>, applies the cipher to every piece on a thread of its own
  and glues the results together in the order of the futures.
\<close>

subsection \<open>Settings\<close>

datatype CipherMode = Encrypt | Decrypt

datatype CipherType = Caesar | Playfair | Vigenere

record ProgramSettings =
  helpRequested :: bool
  versionRequested :: bool
  inputFile :: string
  outputFile :: string
  cipherKey :: string
  cipherMode :: CipherMode
  cipherType :: CipherType

text \<open>The object behind the pointer that \<^verbatim>\<open>cipherFactory\<close> returns is used through
  one method only, \<^verbatim>\<open>applyCipher(text, mode)\<close>, called at line 124 on one object shared
  by all threads. A cipher is the function this method computes: it is taken to return a
  text for every text and mode, without throwing and without changing the object.\<close>

type_synonym cipher = "string \<Rightarrow> CipherMode \<Rightarrow> string"

subsection \<open>Cutting the text\<close>

text \<open>What can go wrong between lines 111 and 119: an integer division by zero, and
  \<^verbatim>\<open>substr\<close> throwing \<^verbatim>\<open>std::out_of_range\<close>.\<close>

datatype fault = DivisionByZero | OutOfRange

text \<open>\<^verbatim>\<open>s.substr(pos, n)\<close> throws when \<^verbatim>\<open>pos > s.size()\<close>; otherwise it returns the
  characters from \<^verbatim>\<open>pos\<close> on, at most \<^verbatim>\<open>n\<close> of them.\<close>

definition substr :: "string \<Rightarrow> nat \<Rightarrow> nat \<Rightarrow> fault + string" where
  "substr s pos n = (if length s < pos then Inl OutOfRange else Inr (take n (drop pos s)))"

text \<open>The body of the loop at lines 114 to 119, for thread number \<open>iThr\<close>. The
  quantities are \<^verbatim>\<open>size_t\<close> in the source; they are natural numbers here, and
  \<open>offset_le_size\<close> and \<open>last_count_le_size\<close> below show that none of them exceeds the
  size of the text, so that no product or sum of the source wraps around.\<close>

definition inTextChunk :: "nat \<Rightarrow> string \<Rightarrow> nat \<Rightarrow> fault + string" where
  "inTextChunk j inputText iThr =
     (let substrLen = length inputText div j in
      if iThr \<noteq> j - 1
      then substr inputText (iThr * substrLen) substrLen
      else substr inputText (iThr * substrLen) (substrLen + length inputText mod j))"

text \<open>The loop over \<open>iThr\<close>: every pass cuts one chunk and hands it to a new thread. An
  exception in a pass ends the loop.\<close>

fun launch :: "nat \<Rightarrow> string \<Rightarrow> nat list \<Rightarrow> fault + string list" where
  "launch j inputText [] = Inr []"
| "launch j inputText (iThr # rest) =
     (case inTextChunk j inputText iThr of
        Inl e \<Rightarrow> Inl e
      | Inr c \<Rightarrow>
          (case launch j inputText rest of
             Inl e \<Rightarrow> Inl e
           | Inr cs \<Rightarrow> Inr (c # cs)))"

text \<open>Lines 111 to 130 for a worker count \<open>j\<close>: the division of line 111 comes first.\<close>

definition chunks :: "nat \<Rightarrow> string \<Rightarrow> fault + string list" where
  "chunks j inputText =
     (if j = 0 then Inl DivisionByZero else launch j inputText [0..<j])"

text \<open>Line 106: the worker count of the program.\<close>

definition main_j :: nat where
  "main_j = 4"

subsection \<open>Applying the cipher to the chunks\<close>

text \<open>Lines 146 to 149: the results are taken from the futures in the order in which
  the futures were pushed, and appended to \<^verbatim>\<open>outputText\<close>.\<close>

fun get_all :: "string \<Rightarrow> string list \<Rightarrow> string" where
  "get_all outputText [] = outputText"
| "get_all outputText (f # futures) = get_all (outputText @ f) futures"

text \<open>Lines 104 to 149 with every future read as the value its thread returns: the
  result of \<^verbatim>\<open>applyCipher\<close> on the chunk the lambda captured. The section on
  interleavings below shows that every schedule of the threads ends with this text.\<close>

definition applyChunked :: "nat \<Rightarrow> cipher \<Rightarrow> CipherMode \<Rightarrow> string \<Rightarrow> fault + string" where
  "applyChunked j cipher mode inputText =
     (case chunks j inputText of
        Inl e \<Rightarrow> Inl e
      | Inr cs \<Rightarrow> Inr (get_all [] (map (\<lambda>c. cipher c mode) cs)))"

subsection \<open>The whole run\<close>

text \<open>What \<^verbatim>\<open>main\<close> takes from outside this file: the command line parser, the
  character filter, the factory, the input file (its characters when the stream is
  good), standard input, and whether the output file can be opened.\<close>

record env =
  processCommandLine :: "string list \<Rightarrow> ProgramSettings \<Rightarrow> bool \<times> ProgramSettings"
  transformChar :: "char \<Rightarrow> string"
  cipherFactory :: "CipherType \<Rightarrow> string \<Rightarrow> cipher option"
  ifstream :: "string \<Rightarrow> string option"
  cin :: string
  ofstream_good :: "string \<Rightarrow> bool"

text \<open>What a run leaves behind: the value \<^verbatim>\<open>main\<close> returns, what the main thread
  wrote to \<^verbatim>\<open>std::cout\<close> and \<^verbatim>\<open>std::cerr\<close>, the file it wrote, and the chunks it
  handed to \<^verbatim>\<open>std::async\<close>, one per thread started. The two lines every worker thread
  prints are part of the interleaving model below, not of this record.\<close>

record run =
  exit_code :: int
  cout_main :: string
  cerr :: string
  written :: "(string \<times> string) option"
  dispatched :: "string list"

definition endl :: string where
  "endl = [CHR 0x0A]"

definition quote :: string where
  "quote = [CHR 0x27]"

definition returning :: "int \<Rightarrow> run" where
  "returning n = \<lparr>exit_code = n, cout_main = [], cerr = [], written = None, dispatched = []\<rparr>"

definition helpText :: string where
  "helpText =
     ''Usage: mpags-cipher [-h/--help] [--version] [-i <file>] [-o <file>] [-c <cipher>] [-k <key>] [--encrypt/--decrypt]'' @ endl @ endl
   @ ''Encrypts/Decrypts input alphanumeric text using classical ciphers'' @ endl @ endl
   @ ''Available options:'' @ endl @ endl
   @ ''  -h|--help        Print this help message and exit'' @ endl @ endl
   @ ''  --version        Print version information'' @ endl @ endl
   @ ''  -i FILE          Read text to be processed from FILE'' @ endl
   @ ''                   Stdin will be used if not supplied'' @ endl @ endl
   @ ''  -o FILE          Write processed text to FILE'' @ endl
   @ ''                   Stdout will be used if not supplied'' @ endl @ endl
   @ ''                   Stdout will be used if not supplied'' @ endl @ endl
   @ ''  -c CIPHER        Specify the cipher to be used to perform the encryption/decryption'' @ endl
   @ ''                   CIPHER can be caesar, playfair, or vigenere - caesar is the default'' @ endl @ endl
   @ ''  -k KEY           Specify the cipher KEY'' @ endl
   @ ''                   A null key, i.e. no encryption, is used if not supplied'' @ endl @ endl
   @ ''  --encrypt        Will use the cipher to encrypt the input text (default behaviour)'' @ endl @ endl
   @ ''  --decrypt        Will use the cipher to decrypt the input text'' @ endl @ endl
   @ endl"

text \<open>Line 21: the settings before the command line is read.\<close>

definition initial_settings :: ProgramSettings where
  "initial_settings =
     \<lparr>helpRequested = False, versionRequested = False, inputFile = [], outputFile = [],
      cipherKey = [], cipherMode = Encrypt, cipherType = Caesar\<rparr>"

text \<open>\<^verbatim>\<open>stream >> inputChar\<close> skips white space before it reads a character.\<close>

definition isspace :: "char \<Rightarrow> bool" where
  "isspace c = (c \<in> set [CHR 0x20, CHR 0x09, CHR 0x0A, CHR 0x0B, CHR 0x0C, CHR 0x0D])"

text \<open>The reading loops of lines 82 and 89, over the characters of the stream.\<close>

fun read_loop :: "(char \<Rightarrow> string) \<Rightarrow> string \<Rightarrow> string \<Rightarrow> string" where
  "read_loop tc inputText [] = inputText"
| "read_loop tc inputText (inputChar # stream) =
     (if isspace inputChar then read_loop tc inputText stream
      else read_loop tc (inputText @ tc inputChar) stream)"

text \<open>Lines 72 to 92: \<open>None\<close> when the input file cannot be read.\<close>

definition read_input :: "env \<Rightarrow> ProgramSettings \<Rightarrow> string option" where
  "read_input e settings =
     (if inputFile settings \<noteq> [] then
        (case ifstream e (inputFile settings) of
           None \<Rightarrow> None
         | Some stream \<Rightarrow> Some (read_loop (transformChar e) [] stream))
      else Some (read_loop (transformChar e) [] (cin e)))"

text \<open>Lines 151 to 173.\<close>

definition write_output :: "env \<Rightarrow> ProgramSettings \<Rightarrow> string list \<Rightarrow> string \<Rightarrow> run" where
  "write_output e settings cs outputText =
     (if outputFile settings \<noteq> [] then
        (if \<not> ofstream_good e (outputFile settings) then
           (returning 1)\<lparr>cerr := ''[error] failed to create ostream on file '' @ quote
                                   @ outputFile settings @ quote @ endl,
                          dispatched := cs\<rparr>
         else
           (returning 0)\<lparr>written := Some (outputFile settings, outputText @ endl),
                          dispatched := cs\<rparr>)
      else (returning 0)\<lparr>cout_main := outputText @ endl, dispatched := cs\<rparr>)"

text \<open>\<^verbatim>\<open>main\<close>. An exception that leaves \<^verbatim>\<open>main\<close> ends the program without a
  return value: \<open>Inl\<close>.\<close>

definition main_run :: "env \<Rightarrow> string list \<Rightarrow> fault + run" where
  "main_run e cmdLineArgs =
     (case processCommandLine e cmdLineArgs initial_settings of
        (cmdLineStatus, settings) \<Rightarrow>
          if \<not> cmdLineStatus then Inr (returning 1)
          else if helpRequested settings then Inr ((returning 0)\<lparr>cout_main := helpText\<rparr>)
          else if versionRequested settings then
            Inr ((returning 0)\<lparr>cout_main := ''0.5.0'' @ endl\<rparr>)
          else
            (case read_input e settings of
               None \<Rightarrow>
                 Inr ((returning 1)\<lparr>cerr := ''[error] failed to create istream on file ''
                                       @ quote @ inputFile settings @ quote @ endl\<rparr>)
             | Some inputText \<Rightarrow>
                 (case cipherFactory e (cipherType settings) (cipherKey settings) of
                    None \<Rightarrow>
                      Inr ((returning 1)\<lparr>cerr :=
                             ''[error] problem constructing requested cipher'' @ endl\<rparr>)
                  | Some cipher \<Rightarrow>
                      (case chunks main_j inputText of
                         Inl ex \<Rightarrow> Inl ex
                       | Inr cs \<Rightarrow>
                           (case applyChunked main_j cipher (cipherMode settings) inputText of
                              Inl ex \<Rightarrow> Inl ex
                            | Inr outputText \<Rightarrow>
                                Inr (write_output e settings cs outputText))))))"

subsection \<open>Threads and futures\<close>

text \<open>Lines 104 to 149 once more, now with the threads running side by side. A worker
  is the lambda of line 122 with the chunk it captured: it prints a line, applies the
  cipher, prints a second line and returns, which makes its future ready.\<close>

datatype worker = Launched string | Started string | Ready string

text \<open>Where the main thread stands: in the loop of line 113 before pass \<open>iThr\<close>; in the
  loop of line 135 with the value of \<^verbatim>\<open>wait\<close> and the index of the future it looks at
  next; in the loop of line 147 with the index of the next future and \<^verbatim>\<open>outputText\<close>
  so far; past line 149; or stopped by an exception.\<close>

datatype main_pc =
    Spawning nat
  | Waiting bool nat
  | Getting nat string
  | Joined string
  | Thrown fault

record threads =
  futures :: "worker list"
  pc :: main_pc
  cout_log :: "string list"

datatype action = MainThread | Worker nat

text \<open>One step of worker \<open>i\<close>. A worker whose future is ready has nothing left to do.\<close>

definition worker_step :: "cipher \<Rightarrow> CipherMode \<Rightarrow> nat \<Rightarrow> threads \<Rightarrow> threads option" where
  "worker_step cipher mode i s =
     (if i < length (futures s) then
        (case futures s ! i of
           Launched c \<Rightarrow>
             Some (s\<lparr>futures := (futures s)[i := Started c],
                     cout_log := cout_log s @ [''[thread] Wait for it...'' @ endl]\<rparr>)
         | Started c \<Rightarrow>
             Some (s\<lparr>futures := (futures s)[i := Ready (cipher c mode)],
                     cout_log := cout_log s @ [''[thread] Done!'' @ endl]\<rparr>)
         | Ready outTextChunk \<Rightarrow> None)
      else None)"

text \<open>The test of \<^verbatim>\<open>while (wait)\<close> at line 134, reached at the end of the inner loop
  and after its \<^verbatim>\<open>break\<close>.\<close>

definition while_wait :: "bool \<Rightarrow> main_pc" where
  "while_wait wait = (if wait then Waiting True 0 else Getting 0 [])"

text \<open>One step of the main thread. \<^verbatim>\<open>wait_for\<close> answers with the state of the future
  at the moment it returns; \<^verbatim>\<open>get\<close> blocks while the future is not ready, so the step
  is not enabled then.\<close>

definition main_step :: "nat \<Rightarrow> string \<Rightarrow> threads \<Rightarrow> threads option" where
  "main_step j inputText s =
     (case pc s of
        Spawning iThr \<Rightarrow>
          (if iThr < j then
             (case inTextChunk j inputText iThr of
                Inl ex \<Rightarrow> Some (s\<lparr>pc := Thrown ex\<rparr>)
              | Inr c \<Rightarrow> Some (s\<lparr>futures := futures s @ [Launched c], pc := Spawning (iThr + 1)\<rparr>))
           else Some (s\<lparr>pc := while_wait True\<rparr>))
      | Waiting wait k \<Rightarrow>
          (if k < length (futures s) then
             (case futures s ! k of
                Ready outTextChunk \<Rightarrow> Some (s\<lparr>pc := Waiting False (k + 1)\<rparr>)
              | Launched c \<Rightarrow> Some (s\<lparr>pc := while_wait wait\<rparr>)
              | Started c \<Rightarrow> Some (s\<lparr>pc := while_wait wait\<rparr>))
           else Some (s\<lparr>pc := while_wait wait\<rparr>))
      | Getting k outputText \<Rightarrow>
          (if k < length (futures s) then
             (case futures s ! k of
                Ready outTextChunk \<Rightarrow> Some (s\<lparr>pc := Getting (k + 1) (outputText @ outTextChunk)\<rparr>)
              | Launched c \<Rightarrow> None
              | Started c \<Rightarrow> None)
           else Some (s\<lparr>pc := Joined outputText\<rparr>))
      | Joined outputText \<Rightarrow> None
      | Thrown ex \<Rightarrow> None)"

definition step :: "nat \<Rightarrow> cipher \<Rightarrow> CipherMode \<Rightarrow> string \<Rightarrow> action \<Rightarrow> threads \<Rightarrow> threads option" where
  "step j cipher mode inputText a s =
     (case a of
        MainThread \<Rightarrow> main_step j inputText s
      | Worker i \<Rightarrow> worker_step cipher mode i s)"

text \<open>A schedule says which thread moves next; a schedule that asks a thread to move
  when it cannot is no execution (\<open>None\<close>).\<close>

fun exec :: "nat \<Rightarrow> cipher \<Rightarrow> CipherMode \<Rightarrow> string \<Rightarrow> action list \<Rightarrow> threads \<Rightarrow> threads option" where
  "exec j cipher mode inputText [] s = Some s"
| "exec j cipher mode inputText (a # schedule) s =
     (case step j cipher mode inputText a s of
        None \<Rightarrow> None
      | Some s' \<Rightarrow> exec j cipher mode inputText schedule s')"

text \<open>Line 109 to 111: no future yet, and the division by \<open>j\<close>.\<close>

definition start :: "nat \<Rightarrow> threads" where
  "start j =
     \<lparr>futures = [], pc = (if j = 0 then Thrown DivisionByZero else Spawning 0), cout_log = []\<rparr>"

section \<open>The parts of the repository outside this file\<close>

text \<open>\<^verbatim>\<open>transformChar\<close>, \<^verbatim>\<open>cipherFactory\<close> and the cipher classes are declared in
  headers and defined elsewhere in the repository. The run above takes them as
  parameters. The definitions of this section follow the specification's words about
  them, sections 4.1 to 4.3; they stand in for the missing code where a statement speaks
  of a particular cipher or character.\<close>

text \<open>Modelled from the spec: the ASCII classes the Sanitizer (4.1) speaks of, upper case
  letters, lower case letters, letters and digits, by character code.\<close>

definition isupper :: "char \<Rightarrow> bool" where
  "isupper c = (65 \<le> (of_char c :: nat) \<and> (of_char c :: nat) \<le> 90)"

definition islower :: "char \<Rightarrow> bool" where
  "islower c = (97 \<le> (of_char c :: nat) \<and> (of_char c :: nat) \<le> 122)"

definition isalpha :: "char \<Rightarrow> bool" where
  "isalpha c = (isupper c \<or> islower c)"

definition isdigit :: "char \<Rightarrow> bool" where
  "isdigit c = (48 \<le> (of_char c :: nat) \<and> (of_char c :: nat) \<le> 57)"

text \<open>Modelled from the spec: the upper case form of a letter (4.1), for the missing
  case conversion of \<^verbatim>\<open>transformChar\<close>.\<close>

definition toupper :: "char \<Rightarrow> char" where
  "toupper c = (if islower c then char_of ((of_char c :: nat) - 32) else c)"

text \<open>Modelled from the spec: the Sanitizer of 4.1, \<^verbatim>\<open>sanitize(char) -> optional<char>\<close>,
  for the missing \<^verbatim>\<open>transformChar\<close>: a letter becomes its upper case form, a digit
  passes, anything else is absent.\<close>

definition sanitize :: "char \<Rightarrow> char option" where
  "sanitize c =
     (if isalpha c then Some (toupper c)
      else if isdigit c then Some c
      else None)"

text \<open>Modelled from the spec: \<^verbatim>\<open>transformChar\<close> as \<^verbatim>\<open>main\<close> uses it at lines 83 and
  90, its result appended to the text: the sanitized character, or nothing when the
  character is dropped.\<close>

definition transformChar_spec :: "char \<Rightarrow> string" where
  "transformChar_spec c = (case sanitize c of None \<Rightarrow> [] | Some d \<Rightarrow> [d])"

text \<open>Modelled from the spec: sanitized text (section 3), characters of A to Z and 0 to 9
  only.\<close>

definition sanitized :: "string \<Rightarrow> bool" where
  "sanitized t = list_all (\<lambda>c. isupper c \<or> isdigit c) t"

text \<open>Modelled from the spec: the modular shift of one character within the 26 letters
  (4.3, Caesar), for the missing cipher classes: a letter of A to Z moves \<open>k\<close> places
  forward for Encrypt and \<open>k\<close> places back for Decrypt, around the alphabet; a digit
  passes unchanged, and so does here any other character that is no letter of A to Z.\<close>

definition shift_char :: "int \<Rightarrow> CipherMode \<Rightarrow> char \<Rightarrow> char" where
  "shift_char k mode c =
     (if isupper c then
        char_of (65 + (case mode of
                         Encrypt \<Rightarrow> (of_char c - 65 + k) mod 26
                       | Decrypt \<Rightarrow> (of_char c - 65 - k) mod 26))
      else c)"

text \<open>Modelled from the spec: \<^verbatim>\<open>applyCipher\<close> of the missing Caesar cipher (4.3), one
  character at a time.\<close>

definition caesar_apply :: "int \<Rightarrow> cipher" where
  "caesar_apply k inputText mode = map (shift_char k mode) inputText"

text \<open>Modelled from the spec: the Caesar key of 4.2, a key reducible to a shift in 0 to
  25, the empty key giving shift 0: a string of decimal digits, read as a number and
  reduced modulo 26; any other key is not valid.\<close>

definition caesar_key :: "string \<Rightarrow> int option" where
  "caesar_key key =
     (if list_all isdigit key
      then Some (foldl (\<lambda>n c. 10 * n + (of_char c - 48)) 0 key mod 26)
      else None)"

text \<open>Modelled from the spec: the shift a keyword letter stands for in the missing
  Vigenere cipher (4.3). The spec says the keyword is mapped to shifts and not how; the
  letter's place in the alphabet is taken, A being 0.\<close>

definition letter_shift :: "char \<Rightarrow> int" where
  "letter_shift c = of_char (toupper c) - 65"

text \<open>Modelled from the spec: the missing Vigenere cipher (4.3) from keyword phase \<open>p\<close>
  on: a letter is shifted by the keyword letter at \<open>p mod length key\<close> and moves the
  phase on by one; a digit passes and leaves the phase where it is. The keyword is not
  empty: the factory builds no cipher from an empty one.\<close>

fun vigenere_from :: "string \<Rightarrow> CipherMode \<Rightarrow> nat \<Rightarrow> string \<Rightarrow> string" where
  "vigenere_from key mode p [] = []"
| "vigenere_from key mode p (c # cs) =
     (if isupper c
      then shift_char (letter_shift (key ! (p mod length key))) mode c
             # vigenere_from key mode (p + 1) cs
      else c # vigenere_from key mode p cs)"

text \<open>Modelled from the spec: \<^verbatim>\<open>applyCipher(text, mode)\<close> of the missing Vigenere
  cipher. The call of line 124 passes the chunk and the mode and nothing else, so the
  cipher starts every text it is given at phase 0.\<close>

definition vigenere_apply :: "string \<Rightarrow> cipher" where
  "vigenere_apply key inputText mode = vigenere_from key mode 0 inputText"

text \<open>Modelled from the spec: the keyword the factory asks of Vigenere and Playfair
  (4.2), not empty and alphabetic.\<close>

definition alphabetic_key :: "string \<Rightarrow> bool" where
  "alphabetic_key key = (key \<noteq> [] \<and> list_all isalpha key)"

text \<open>Modelled from the spec: the missing \<^verbatim>\<open>cipherFactory\<close> as 4.2 has it, a cipher
  or no cipher (the null pointer that line 98 tests). The algorithm of Playfair is not
  modelled: the factory takes it as the parameter \<open>playfair\<close>.\<close>

definition cipherFactory_spec :: "(string \<Rightarrow> cipher) \<Rightarrow> CipherType \<Rightarrow> string \<Rightarrow> cipher option" where
  "cipherFactory_spec playfair type key =
     (case type of
        Caesar \<Rightarrow> map_option caesar_apply (caesar_key key)
      | Playfair \<Rightarrow> (if alphabetic_key key then Some (playfair key) else None)
      | Vigenere \<Rightarrow> (if alphabetic_key key then Some (vigenere_apply key) else None))"

section \<open>Definitions for the proofs\<close>

subsection \<open>The chunks as slices\<close>

text \<open>The chunk of thread \<open>iThr\<close> as a plain slice of the text.\<close>

definition slice :: "nat \<Rightarrow> string \<Rightarrow> nat \<Rightarrow> string" where
  "slice j inputText iThr =
     (if Suc iThr = j then drop (iThr * (length inputText div j)) inputText
      else take (length inputText div j) (drop (iThr * (length inputText div j)) inputText))"

subsection \<open>What every schedule keeps true\<close>

text \<open>The result worker \<open>i\<close> has to deliver, and the invariant of the thread model:
  every future holds its own chunk or the cipher's result on it, a future that is ready
  stays as it is, \<^verbatim>\<open>wait\<close> is true in the polling loop only before the first future,
  and the main thread's \<^verbatim>\<open>outputText\<close> is made of the results of the futures it
  passed, in their order.\<close>

definition expected :: "nat \<Rightarrow> cipher \<Rightarrow> CipherMode \<Rightarrow> string \<Rightarrow> nat \<Rightarrow> string" where
  "expected j cipher mode inputText i = cipher (slice j inputText i) mode"

definition worker_ok :: "nat \<Rightarrow> cipher \<Rightarrow> CipherMode \<Rightarrow> string \<Rightarrow> nat \<Rightarrow> worker \<Rightarrow> bool" where
  "worker_ok j cipher mode inputText i w =
     (w = Launched (slice j inputText i) \<or> w = Started (slice j inputText i)
      \<or> w = Ready (expected j cipher mode inputText i))"

definition pc_ok :: "nat \<Rightarrow> cipher \<Rightarrow> CipherMode \<Rightarrow> string \<Rightarrow> worker list \<Rightarrow> main_pc \<Rightarrow> bool" where
  "pc_ok j cipher mode inputText fs p =
     (case p of
        Spawning iThr \<Rightarrow> iThr = length fs
      | Waiting wait k \<Rightarrow> length fs = j \<and> k \<le> j \<and> (k = 0 \<or> \<not> wait)
      | Getting k outputText \<Rightarrow>
          length fs = j \<and> k \<le> j
          \<and> (\<forall>i < k. fs ! i = Ready (expected j cipher mode inputText i))
          \<and> outputText = concat (map (expected j cipher mode inputText) [0..<k])
      | Joined outputText \<Rightarrow>
          length fs = j
          \<and> (\<forall>i < j. fs ! i = Ready (expected j cipher mode inputText i))
          \<and> outputText = concat (map (expected j cipher mode inputText) [0..<j])
      | Thrown ex \<Rightarrow> False)"

definition thread_inv :: "nat \<Rightarrow> cipher \<Rightarrow> CipherMode \<Rightarrow> string \<Rightarrow> threads \<Rightarrow> bool" where
  "thread_inv j cipher mode inputText s =
     (length (futures s) \<le> j
      \<and> (\<forall>i < length (futures s). worker_ok j cipher mode inputText i (futures s ! i))
      \<and> pc_ok j cipher mode inputText (futures s) (pc s))"

subsection \<open>A schedule that runs to the end\<close>

text \<open>The futures when workers \<open>0\<close> to \<open>k - 1\<close> have finished and the others have not
  begun.\<close>

definition mixed :: "nat \<Rightarrow> cipher \<Rightarrow> CipherMode \<Rightarrow> string \<Rightarrow> nat \<Rightarrow> worker list" where
  "mixed j cipher mode inputText k =
     map (\<lambda>i. Ready (cipher (slice j inputText i) mode)) [0..<k]
     @ map (\<lambda>i. Launched (slice j inputText i)) [k..<j]"

text \<open>The schedule: the main thread starts all workers, every worker runs to its end,
  and the main thread does the rest.\<close>

definition in_turn :: "nat \<Rightarrow> action list" where
  "in_turn j =
     replicate j MainThread
     @ concat (map (\<lambda>i. [Worker i, Worker i]) [0..<j])
     @ [MainThread] @ replicate j MainThread @ [MainThread]
     @ replicate j MainThread @ [MainThread]"

subsection \<open>How far a state is from the end\<close>

text \<open>The steps a worker has left, how far the main thread has come, and the number of
  steps the threads have left together when no step is wasted.\<close>

fun cost :: "worker \<Rightarrow> nat" where
  "cost (Launched c) = 2"
| "cost (Started c) = 1"
| "cost (Ready r) = 0"

fun pc_rank :: "nat \<Rightarrow> main_pc \<Rightarrow> nat" where
  "pc_rank j (Spawning iThr) = iThr"
| "pc_rank j (Waiting wait k) = j + 1 + k"
| "pc_rank j (Getting k outputText) = 2 * j + 2 + k"
| "pc_rank j (Joined outputText) = 3 * j + 3"
| "pc_rank j (Thrown ex) = 0"

definition steps_left :: "nat \<Rightarrow> threads \<Rightarrow> nat" where
  "steps_left j s =
     sum_list (map cost (futures s)) + 2 * (j - length (futures s))
     + (3 * j + 3 - pc_rank j (pc s))"

section \<open>Facts about the cut\<close>

lemma offset_le_size:
  assumes "iThr < j"
  shows "iThr * (n div j) \<le> (n::nat)"
proof -
  have "iThr * (n div j) \<le> j * (n div j)"
    using assms by (simp add: mult_le_mono1)
  also have "\<dots> \<le> n" by simp
  finally show ?thesis .
qed

lemma inner_end_le_size:
  assumes "Suc iThr < j"
  shows "iThr * (n div j) + n div j \<le> (n::nat)"
  using offset_le_size [OF assms, of n] by simp

lemma last_count_le_size:
  assumes "0 < j"
  shows "n div j + n mod j \<le> (n::nat)"
proof -
  have "n = j * (n div j) + n mod j" by simp
  moreover have "n div j \<le> j * (n div j)" using assms by simp
  ultimately show ?thesis by linarith
qed

lemma last_offset_rest:
  assumes "0 < j"
  shows "(j - 1) * (n div j) + (n div j + n mod j) = (n::nat)"
proof -
  have "(j - 1) * (n div j) + n div j = j * (n div j)"
    using assms by (cases j) simp_all
  moreover have "n = j * (n div j) + n mod j" by simp
  ultimately show ?thesis by linarith
qed

lemma inTextChunk_slice:
  assumes "iThr < j"
  shows "inTextChunk j inputText iThr = Inr (slice j inputText iThr)"
proof (cases "Suc iThr = j")
  case True
  then have i: "iThr = j - 1" and j: "0 < j" by auto
  have "iThr * (length inputText div j) + (length inputText div j + length inputText mod j)
          = length inputText"
    using last_offset_rest [OF j, of "length inputText"] i by simp
  then have "length inputText - iThr * (length inputText div j)
          = length inputText div j + length inputText mod j"
    by linarith
  moreover have "iThr * (length inputText div j) \<le> length inputText"
    by (rule offset_le_size [OF assms])
  ultimately show ?thesis
    using True i by (simp add: inTextChunk_def substr_def slice_def Let_def)
next
  case False
  then have "iThr \<noteq> j - 1" using assms by auto
  moreover have "iThr * (length inputText div j) \<le> length inputText"
    by (rule offset_le_size [OF assms])
  ultimately show ?thesis
    using False by (simp add: inTextChunk_def substr_def slice_def Let_def)
qed

lemma launch_map:
  assumes "\<And>i. i \<in> set is \<Longrightarrow> inTextChunk j inputText i = Inr (f i)"
  shows "launch j inputText is = Inr (map f is)"
  using assms by (induction "is") simp_all

lemma chunks_slices:
  assumes "0 < j"
  shows "chunks j inputText = Inr (map (slice j inputText) [0..<j])"
proof -
  have "launch j inputText [0..<j] = Inr (map (slice j inputText) [0..<j])"
    by (rule launch_map) (simp add: inTextChunk_slice)
  then show ?thesis using assms by (simp add: chunks_def)
qed

lemma length_slice_inner:
  assumes "Suc iThr < j"
  shows "length (slice j inputText iThr) = length inputText div j"
  using assms inner_end_le_size [OF assms, of "length inputText"]
  by (simp add: slice_def)

lemma length_slice_last:
  assumes "0 < j"
  shows "length (slice j inputText (j - 1)) = length inputText div j + length inputText mod j"
  using assms last_offset_rest [OF assms, of "length inputText"]
  by (simp add: slice_def)

lemma concat_inner_slices:
  assumes "k < j"
  shows "concat (map (slice j inputText) [0..<k]) = take (k * (length inputText div j)) inputText"
  using assms
proof (induction k)
  case 0
  then show ?case by simp
next
  case (Suc k)
  let ?q = "length inputText div j"
  from Suc.prems have "Suc k \<noteq> j" and "k < j" by simp_all
  then have "slice j inputText k = take ?q (drop (k * ?q) inputText)"
    by (simp add: slice_def)
  moreover have "concat (map (slice j inputText) [0..<k]) = take (k * ?q) inputText"
    using Suc.IH \<open>k < j\<close> by simp
  moreover have "take (k * ?q) inputText @ take ?q (drop (k * ?q) inputText)
      = take (k * ?q + ?q) inputText"
    by (simp add: take_add)
  moreover have "Suc k * ?q = k * ?q + ?q" by simp
  ultimately show ?case by (simp del: mult_Suc)
qed

lemma concat_slices:
  assumes "0 < j"
  shows "concat (map (slice j inputText) [0..<j]) = inputText"
proof -
  obtain k where j: "j = Suc k" using assms by (cases j) auto
  have "concat (map (slice j inputText) [0..<k]) = take (k * (length inputText div j)) inputText"
    by (rule concat_inner_slices) (simp add: j)
  moreover have "slice j inputText k = drop (k * (length inputText div j)) inputText"
    by (simp add: slice_def j)
  ultimately show ?thesis by (simp add: j)
qed


lemma get_all_concat: "get_all outputText outs = outputText @ concat outs"
  by (induction outs arbitrary: outputText) simp_all

lemma applyChunked_slices:
  assumes "0 < j"
  shows "applyChunked j cipher mode inputText
    = Inr (concat (map (\<lambda>i. cipher (slice j inputText i) mode) [0..<j]))"
  by (simp add: applyChunked_def chunks_slices [OF assms] get_all_concat comp_def)

lemma upt_4: "[0..<4] = [0, 1, 2, 3::nat]"
  by (simp add: upt_rec)

lemma chunks_short:
  assumes "length inputText < 4"
  shows "chunks main_j inputText = Inr ['''', '''', '''', inputText]"
  using assms by (simp add: main_j_def chunks_slices upt_4 slice_def)

section \<open>Facts about the run\<close>

lemma main_run_after_input:
  assumes "processCommandLine e cmdLineArgs initial_settings = (True, settings)"
    and "\<not> helpRequested settings" and "\<not> versionRequested settings"
    and "read_input e settings = Some inputText"
  shows "main_run e cmdLineArgs =
     (case cipherFactory e (cipherType settings) (cipherKey settings) of
        None \<Rightarrow>
          Inr ((returning 1)\<lparr>cerr := ''[error] problem constructing requested cipher'' @ endl\<rparr>)
      | Some cipher \<Rightarrow>
          (case chunks main_j inputText of
             Inl ex \<Rightarrow> Inl ex
           | Inr cs \<Rightarrow>
               (case applyChunked main_j cipher (cipherMode settings) inputText of
                  Inl ex \<Rightarrow> Inl ex
                | Inr outputText \<Rightarrow> Inr (write_output e settings cs outputText))))"
  by (simp add: main_run_def assms)

section \<open>Facts about the threads\<close>

subsection \<open>The invariant\<close>

lemma inv_start: "0 < j \<Longrightarrow> thread_inv j cipher mode inputText (start j)"
  by (simp add: thread_inv_def start_def pc_ok_def)

lemma inv_worker_step:
  assumes "thread_inv j cipher mode inputText s"
    and "worker_step cipher mode i s = Some s'"
  shows "thread_inv j cipher mode inputText s'"
proof -
  from assms(2) have i: "i < length (futures s)"
    by (simp add: worker_step_def split: if_splits)
  from assms(1) i have ok: "worker_ok j cipher mode inputText i (futures s ! i)"
    by (simp add: thread_inv_def)
  from assms(2) i obtain w where
    s': "s' = s\<lparr>futures := (futures s)[i := w], cout_log := cout_log s'\<rparr>"
    and w: "worker_ok j cipher mode inputText i w"
    and nr: "\<forall>out. futures s ! i \<noteq> Ready out"
    using ok
    by (auto simp: worker_step_def worker_ok_def expected_def split: worker.splits)
  have len: "length (futures s') = length (futures s)" by (subst s') simp
  have pcs: "pc s' = pc s" by (subst s') simp
  have fut: "futures s' = (futures s)[i := w]" by (subst s') simp
  have keep: "futures s' ! k = futures s ! k" if "futures s ! k = Ready out" for k out
    using that nr by (cases "k = i") (auto simp: fut)
  have "worker_ok j cipher mode inputText k (futures s' ! k)" if "k < length (futures s')" for k
    using that w assms(1) by (cases "k = i") (auto simp: fut thread_inv_def)
  moreover have "pc_ok j cipher mode inputText (futures s') (pc s')"
    using assms(1) keep by (auto simp: thread_inv_def pc_ok_def pcs len split: main_pc.splits)
  ultimately show ?thesis using assms(1) by (simp add: thread_inv_def len)
qed

lemma inv_main_step:
  assumes "0 < j" and "thread_inv j cipher mode inputText s"
    and "main_step j inputText s = Some s'"
  shows "thread_inv j cipher mode inputText s'"
proof (cases "pc s")
  case (Spawning iThr)
  with assms(2) have k: "iThr = length (futures s)" and le: "length (futures s) \<le> j"
    by (simp_all add: thread_inv_def pc_ok_def)
  show ?thesis
  proof (cases "iThr < j")
    case True
    then have c: "inTextChunk j inputText iThr = Inr (slice j inputText iThr)"
      by (rule inTextChunk_slice)
    with assms(3) Spawning True
    have s': "s' = s\<lparr>futures := futures s @ [Launched (slice j inputText iThr)],
                        pc := Spawning (iThr + 1)\<rparr>"
      by (simp add: main_step_def)
    have "worker_ok j cipher mode inputText i (futures s' ! i)" if "i < length (futures s')" for i
      using that assms(2) k
      by (cases "i = iThr") (auto simp: s' thread_inv_def worker_ok_def nth_append)
    then show ?thesis
      using True k by (simp add: thread_inv_def pc_ok_def s')
  next
    case False
    with assms(3) Spawning have s': "s' = s\<lparr>pc := Waiting True 0\<rparr>"
      by (simp add: main_step_def while_wait_def)
    from False k le have "length (futures s) = j" by simp
    then show ?thesis
      using assms(2) by (simp add: thread_inv_def pc_ok_def s')
  qed
next
  case (Waiting wait k)
  with assms(2) have len: "length (futures s) = j"
    by (simp add: thread_inv_def pc_ok_def)
  from assms(3) Waiting len obtain p where s': "s' = s\<lparr>pc := p\<rparr>"
    and p: "(p = Waiting False (k + 1) \<and> k < j) \<or> p = Waiting True 0 \<or> p = Getting 0 []"
    by (auto simp: main_step_def while_wait_def split: if_splits worker.splits)
  from p len have "pc_ok j cipher mode inputText (futures s) p"
    by (auto simp: pc_ok_def)
  then show ?thesis
    using assms(2) by (simp add: thread_inv_def s')
next
  case (Getting k outputText)
  with assms(2) have len: "length (futures s) = j" and kj: "k \<le> j"
    and got: "\<forall>i < k. futures s ! i = Ready (expected j cipher mode inputText i)"
    and out: "outputText = concat (map (expected j cipher mode inputText) [0..<k])"
    by (simp_all add: thread_inv_def pc_ok_def)
  show ?thesis
  proof (cases "k < j")
    case True
    with assms(3) Getting len obtain r where r: "futures s ! k = Ready r"
      and s': "s' = s\<lparr>pc := Getting (k + 1) (outputText @ r)\<rparr>"
      by (auto simp: main_step_def split: worker.splits)
    from assms(2) True len have "worker_ok j cipher mode inputText k (futures s ! k)"
      by (simp add: thread_inv_def)
    with r have re: "r = expected j cipher mode inputText k"
      by (simp add: worker_ok_def)
    have "\<forall>i < k + 1. futures s ! i = Ready (expected j cipher mode inputText i)"
      using got r re by (auto simp: less_Suc_eq)
    then have "pc_ok j cipher mode inputText (futures s) (Getting (k + 1) (outputText @ r))"
      using len True out re by (simp add: pc_ok_def)
    then show ?thesis
      using assms(2) by (simp add: thread_inv_def s')
  next
    case False
    with kj have "k = j" by simp
    with assms(3) Getting len have s': "s' = s\<lparr>pc := Joined outputText\<rparr>"
      by (simp add: main_step_def)
    have "pc_ok j cipher mode inputText (futures s) (Joined outputText)"
      using len got out \<open>k = j\<close> by (simp add: pc_ok_def)
    then show ?thesis
      using assms(2) by (simp add: thread_inv_def s')
  qed
next
  case (Joined outputText)
  with assms(3) show ?thesis by (simp add: main_step_def)
next
  case (Thrown ex)
  with assms(3) show ?thesis by (simp add: main_step_def)
qed

lemma inv_exec:
  assumes "0 < j" and "thread_inv j cipher mode inputText s"
    and "exec j cipher mode inputText schedule s = Some s'"
  shows "thread_inv j cipher mode inputText s'"
  using assms(2,3)
proof (induction schedule arbitrary: s)
  case Nil
  then show ?case by simp
next
  case (Cons a schedule)
  from Cons.prems(2) obtain t where t: "step j cipher mode inputText a s = Some t"
    and rest: "exec j cipher mode inputText schedule t = Some s'"
    by (auto split: option.splits)
  have "thread_inv j cipher mode inputText t"
  proof (cases a)
    case MainThread
    with t show ?thesis
      using inv_main_step [OF assms(1) Cons.prems(1)] by (simp add: step_def)
  next
    case (Worker i)
    with t show ?thesis
      using inv_worker_step [OF Cons.prems(1)] by (simp add: step_def)
  qed
  then show ?case using rest by (rule Cons.IH)
qed

lemma joined_result:
  assumes "0 < j"
    and "exec j cipher mode inputText schedule (start j) = Some s"
    and "pc s = Joined outputText"
  shows "futures s = map (\<lambda>i. Ready (cipher (slice j inputText i) mode)) [0..<j]"
    and "outputText = concat (map (\<lambda>i. cipher (slice j inputText i) mode) [0..<j])"
proof -
  have "thread_inv j cipher mode inputText s"
    by (rule inv_exec [OF assms(1) inv_start [OF assms(1)] assms(2)])
  with assms(3) have len: "length (futures s) = j"
    and all: "\<forall>i < j. futures s ! i = Ready (expected j cipher mode inputText i)"
    and out: "outputText = concat (map (expected j cipher mode inputText) [0..<j])"
    by (simp_all add: thread_inv_def pc_ok_def)
  show "futures s = map (\<lambda>i. Ready (cipher (slice j inputText i) mode)) [0..<j]"
    using len all by (intro nth_equalityI) (simp_all add: expected_def)
  show "outputText = concat (map (\<lambda>i. cipher (slice j inputText i) mode) [0..<j])"
    using out by (simp add: expected_def [abs_def])
qed

subsection \<open>Every run can come to its end\<close>

lemma exec_append:
  "exec j cipher mode inputText (xs @ ys) s =
     (case exec j cipher mode inputText xs s of
        None \<Rightarrow> None
      | Some t \<Rightarrow> exec j cipher mode inputText ys t)"
  by (induction xs arbitrary: s) (simp_all split: option.splits)

lemma exec_then:
  assumes "exec j cipher mode inputText xs s = Some t"
    and "exec j cipher mode inputText ys t = Some u"
  shows "exec j cipher mode inputText (xs @ ys) s = Some u"
  using assms by (simp add: exec_append)

text \<open>The main thread starts the workers one after the other.\<close>

lemma spawn_all:
  assumes "k \<le> j" and "0 < j"
  shows "exec j cipher mode inputText (replicate k MainThread) (start j)
    = Some \<lparr>futures = map (\<lambda>i. Launched (slice j inputText i)) [0..<k],
             pc = Spawning k, cout_log = []\<rparr>"
  using assms(1)
proof (induction k)
  case 0
  then show ?case using assms(2) by (simp add: start_def)
next
  case (Suc k)
  then have k: "k < j" by simp
  have "replicate (Suc k) MainThread = replicate k MainThread @ [MainThread]"
    by (simp add: replicate_append_same)
  moreover have "exec j cipher mode inputText (replicate k MainThread) (start j)
    = Some \<lparr>futures = map (\<lambda>i. Launched (slice j inputText i)) [0..<k],
             pc = Spawning k, cout_log = []\<rparr>"
    using Suc by simp
  moreover have "exec j cipher mode inputText [MainThread]
       \<lparr>futures = map (\<lambda>i. Launched (slice j inputText i)) [0..<k],
        pc = Spawning k, cout_log = []\<rparr>
    = Some \<lparr>futures = map (\<lambda>i. Launched (slice j inputText i)) [0..<Suc k],
             pc = Spawning (Suc k), cout_log = []\<rparr>"
    using k by (simp add: step_def main_step_def inTextChunk_slice)
  ultimately show ?case by (simp only: exec_then)
qed

text \<open>The workers run to their end one after the other.\<close>

lemma mixed_step:
  assumes "k < j"
  shows "(mixed j cipher mode inputText k)[k := Ready (cipher (slice j inputText k) mode)]
     = mixed j cipher mode inputText (Suc k)"
    and "mixed j cipher mode inputText k ! k = Launched (slice j inputText k)"
    and "length (mixed j cipher mode inputText k) = j"
proof -
  have up: "[k..<j] = k # [Suc k..<j]" using assms by (simp add: upt_conv_Cons)
  show "(mixed j cipher mode inputText k)[k := Ready (cipher (slice j inputText k) mode)]
     = mixed j cipher mode inputText (Suc k)"
    by (simp add: mixed_def up list_update_append)
  show "mixed j cipher mode inputText k ! k = Launched (slice j inputText k)"
    by (simp add: mixed_def up nth_append)
  show "length (mixed j cipher mode inputText k) = j"
    using assms by (simp add: mixed_def)
qed

lemma work_all:
  assumes "k \<le> j"
  shows "\<exists>log. exec j cipher mode inputText (concat (map (\<lambda>i. [Worker i, Worker i]) [0..<k]))
        \<lparr>futures = mixed j cipher mode inputText 0, pc = p, cout_log = []\<rparr>
    = Some \<lparr>futures = mixed j cipher mode inputText k, pc = p, cout_log = log\<rparr>"
  using assms
proof (induction k)
  case 0
  then show ?case by simp
next
  case (Suc k)
  then have k: "k < j" by simp
  from Suc obtain log where before:
    "exec j cipher mode inputText (concat (map (\<lambda>i. [Worker i, Worker i]) [0..<k]))
        \<lparr>futures = mixed j cipher mode inputText 0, pc = p, cout_log = []\<rparr>
    = Some \<lparr>futures = mixed j cipher mode inputText k, pc = p, cout_log = log\<rparr>"
    by auto
  have "exec j cipher mode inputText [Worker k, Worker k]
        \<lparr>futures = mixed j cipher mode inputText k, pc = p, cout_log = log\<rparr>
    = Some \<lparr>futures = mixed j cipher mode inputText (Suc k), pc = p,
             cout_log = log @ [''[thread] Wait for it...'' @ endl] @ [''[thread] Done!'' @ endl]\<rparr>"
    using mixed_step [OF k, of cipher mode inputText] k
    by (simp add: step_def worker_step_def)
  with before have "exec j cipher mode inputText
        (concat (map (\<lambda>i. [Worker i, Worker i]) [0..<k]) @ [Worker k, Worker k])
        \<lparr>futures = mixed j cipher mode inputText 0, pc = p, cout_log = []\<rparr>
    = Some \<lparr>futures = mixed j cipher mode inputText (Suc k), pc = p,
             cout_log = log @ [''[thread] Wait for it...'' @ endl] @ [''[thread] Done!'' @ endl]\<rparr>"
    by (rule exec_then)
  then show ?case by auto
qed

text \<open>With every future ready, the main thread goes through the polling loop once and
  through the collecting loop once.\<close>

lemma poll_all:
  assumes "k \<le> j"
  shows "exec j cipher mode inputText (replicate k MainThread)
        \<lparr>futures = mixed j cipher mode inputText j, pc = Waiting True 0, cout_log = log\<rparr>
    = Some \<lparr>futures = mixed j cipher mode inputText j, pc = Waiting (k = 0) k, cout_log = log\<rparr>"
  using assms
proof (induction k)
  case 0
  then show ?case by simp
next
  case (Suc k)
  then have k: "k < j" by simp
  have "replicate (Suc k) MainThread = replicate k MainThread @ [MainThread]"
    by (simp add: replicate_append_same)
  moreover have "exec j cipher mode inputText (replicate k MainThread)
        \<lparr>futures = mixed j cipher mode inputText j, pc = Waiting True 0, cout_log = log\<rparr>
    = Some \<lparr>futures = mixed j cipher mode inputText j, pc = Waiting (k = 0) k, cout_log = log\<rparr>"
    using Suc by simp
  moreover have "exec j cipher mode inputText [MainThread]
        \<lparr>futures = mixed j cipher mode inputText j, pc = Waiting (k = 0) k, cout_log = log\<rparr>
    = Some \<lparr>futures = mixed j cipher mode inputText j, pc = Waiting (Suc k = 0) (Suc k),
             cout_log = log\<rparr>"
    using k by (simp add: step_def main_step_def mixed_def)
  ultimately show ?case by (simp only: exec_then)
qed

lemma get_each:
  assumes "k \<le> j"
  shows "exec j cipher mode inputText (replicate k MainThread)
        \<lparr>futures = mixed j cipher mode inputText j, pc = Getting 0 [], cout_log = log\<rparr>
    = Some \<lparr>futures = mixed j cipher mode inputText j,
             pc = Getting k (concat (map (\<lambda>i. cipher (slice j inputText i) mode) [0..<k])),
             cout_log = log\<rparr>"
  using assms
proof (induction k)
  case 0
  then show ?case by simp
next
  case (Suc k)
  then have k: "k < j" by simp
  let ?out = "concat (map (\<lambda>i. cipher (slice j inputText i) mode) [0..<k])"
  have "replicate (Suc k) MainThread = replicate k MainThread @ [MainThread]"
    by (simp add: replicate_append_same)
  moreover have "exec j cipher mode inputText (replicate k MainThread)
        \<lparr>futures = mixed j cipher mode inputText j, pc = Getting 0 [], cout_log = log\<rparr>
    = Some \<lparr>futures = mixed j cipher mode inputText j, pc = Getting k ?out, cout_log = log\<rparr>"
    using Suc by simp
  moreover have "exec j cipher mode inputText [MainThread]
        \<lparr>futures = mixed j cipher mode inputText j, pc = Getting k ?out, cout_log = log\<rparr>
    = Some \<lparr>futures = mixed j cipher mode inputText j,
             pc = Getting (Suc k) (concat (map (\<lambda>i. cipher (slice j inputText i) mode) [0..<Suc k])),
             cout_log = log\<rparr>"
    using k by (simp add: step_def main_step_def mixed_def)
  ultimately show ?case by (simp only: exec_then)
qed

lemma in_turn_joins:
  assumes "0 < j"
  shows "\<exists>s. exec j cipher mode inputText (in_turn j) (start j) = Some s
     \<and> pc s = Joined (concat (map (\<lambda>i. cipher (slice j inputText i) mode) [0..<j]))"
proof -
  let ?ready = "mixed j cipher mode inputText j"
  let ?out = "concat (map (\<lambda>i. cipher (slice j inputText i) mode) [0..<j])"
  have m0: "map (\<lambda>i. Launched (slice j inputText i)) [0..<j] = mixed j cipher mode inputText 0"
    by (simp add: mixed_def)
  have len: "length ?ready = j" by (simp add: mixed_def)
  have a: "exec j cipher mode inputText (replicate j MainThread) (start j)
    = Some \<lparr>futures = mixed j cipher mode inputText 0, pc = Spawning j, cout_log = []\<rparr>"
    using spawn_all [OF le_refl assms, of cipher mode inputText] by (simp only: m0)
  obtain log where b: "exec j cipher mode inputText
        (concat (map (\<lambda>i. [Worker i, Worker i]) [0..<j]))
        \<lparr>futures = mixed j cipher mode inputText 0, pc = Spawning j, cout_log = []\<rparr>
    = Some \<lparr>futures = ?ready, pc = Spawning j, cout_log = log\<rparr>"
    using work_all [OF le_refl, of j cipher mode inputText "Spawning j"] by blast
  have c: "exec j cipher mode inputText [MainThread]
        \<lparr>futures = ?ready, pc = Spawning j, cout_log = log\<rparr>
    = Some \<lparr>futures = ?ready, pc = Waiting True 0, cout_log = log\<rparr>"
    by (simp add: step_def main_step_def while_wait_def)
  have d: "exec j cipher mode inputText (replicate j MainThread)
        \<lparr>futures = ?ready, pc = Waiting True 0, cout_log = log\<rparr>
    = Some \<lparr>futures = ?ready, pc = Waiting False j, cout_log = log\<rparr>"
    using poll_all [OF le_refl, of j cipher mode inputText log] assms by simp
  have e: "exec j cipher mode inputText [MainThread]
        \<lparr>futures = ?ready, pc = Waiting False j, cout_log = log\<rparr>
    = Some \<lparr>futures = ?ready, pc = Getting 0 [], cout_log = log\<rparr>"
    using len by (simp add: step_def main_step_def while_wait_def)
  have f: "exec j cipher mode inputText (replicate j MainThread)
        \<lparr>futures = ?ready, pc = Getting 0 [], cout_log = log\<rparr>
    = Some \<lparr>futures = ?ready, pc = Getting j ?out, cout_log = log\<rparr>"
    by (rule get_each [OF le_refl])
  have g: "exec j cipher mode inputText [MainThread]
        \<lparr>futures = ?ready, pc = Getting j ?out, cout_log = log\<rparr>
    = Some \<lparr>futures = ?ready, pc = Joined ?out, cout_log = log\<rparr>"
    using len by (simp add: step_def main_step_def)
  have "exec j cipher mode inputText (in_turn j) (start j)
    = Some \<lparr>futures = ?ready, pc = Joined ?out, cout_log = log\<rparr>"
    unfolding in_turn_def
    by (intro exec_then [OF a] exec_then [OF b] exec_then [OF c] exec_then [OF d]
        exec_then [OF e] exec_then [OF f] g)
  then show ?thesis by simp
qed

subsection \<open>No state is stuck\<close>

text \<open>In every state of the invariant short of the end some thread can move, and the
  move brings the end nearer: the main thread while it starts workers, then any worker
  that has not finished, then the main thread again.\<close>

lemma inv_step:
  assumes "0 < j" and "thread_inv j cipher mode inputText s"
    and "step j cipher mode inputText a s = Some s'"
  shows "thread_inv j cipher mode inputText s'"
proof (cases a)
  case MainThread
  with assms(3) show ?thesis
    using inv_main_step [OF assms(1,2)] by (simp add: step_def)
next
  case (Worker i)
  with assms(3) show ?thesis
    using inv_worker_step [OF assms(2)] by (simp add: step_def)
qed

lemma inv_joined:
  assumes "thread_inv j cipher mode inputText s" and "pc s = Joined outputText"
  shows "outputText = concat (map (\<lambda>i. cipher (slice j inputText i) mode) [0..<j])"
  using assms by (simp add: thread_inv_def pc_ok_def expected_def [abs_def])

lemma inv_not_thrown:
  assumes "thread_inv j cipher mode inputText s"
  shows "pc s \<noteq> Thrown ex"
  using assms by (auto simp: thread_inv_def pc_ok_def)

lemma cost_update:
  assumes "i < length fs" and "cost w + 1 = cost (fs ! i)"
  shows "sum_list (map cost (fs[i := w])) + 1 = sum_list (map cost fs)"
  using assms
proof (induction fs arbitrary: i)
  case Nil
  then show ?case by simp
next
  case (Cons f fs)
  then show ?case by (cases i) simp_all
qed

lemma worker_progress:
  assumes "i < length (futures s)" and "\<forall>r. futures s ! i \<noteq> Ready r"
  shows "\<exists>s'. worker_step cipher mode i s = Some s' \<and> steps_left j s' < steps_left j s"
proof -
  from assms obtain w where run: "worker_step cipher mode i s
        = Some (s\<lparr>futures := (futures s)[i := w], cout_log := cout_log (the (worker_step cipher mode i s))\<rparr>)"
    and w: "cost w + 1 = cost (futures s ! i)"
    by (cases "futures s ! i") (auto simp: worker_step_def)
  let ?s' = "s\<lparr>futures := (futures s)[i := w], cout_log := cout_log (the (worker_step cipher mode i s))\<rparr>"
  have "sum_list (map cost (futures ?s')) + 1 = sum_list (map cost (futures s))"
    using cost_update [OF assms(1) w] by simp
  then have "steps_left j ?s' < steps_left j s"
    by (simp add: steps_left_def)
  with run show ?thesis by blast
qed

lemma main_progress:
  assumes "0 < j" and "thread_inv j cipher mode inputText s"
    and "\<forall>i < length (futures s). \<exists>r. futures s ! i = Ready r"
    and "\<forall>t. pc s \<noteq> Joined t"
  shows "\<exists>s'. main_step j inputText s = Some s' \<and> steps_left j s' < steps_left j s"
proof (cases "pc s")
  case (Spawning iThr)
  with assms(2) have k: "iThr = length (futures s)" and le: "length (futures s) \<le> j"
    by (simp_all add: thread_inv_def pc_ok_def)
  show ?thesis
  proof (cases "iThr < j")
    case True
    then have "inTextChunk j inputText iThr = Inr (slice j inputText iThr)"
      by (rule inTextChunk_slice)
    with Spawning True
    have "main_step j inputText s
      = Some (s\<lparr>futures := futures s @ [Launched (slice j inputText iThr)],
                 pc := Spawning (iThr + 1)\<rparr>)"
      by (simp add: main_step_def)
    moreover have "steps_left j (s\<lparr>futures := futures s @ [Launched (slice j inputText iThr)],
                 pc := Spawning (iThr + 1)\<rparr>) < steps_left j s"
      using True k Spawning by (simp add: steps_left_def)
    ultimately show ?thesis by blast
  next
    case False
    with k le have "iThr = j" by simp
    with Spawning have "main_step j inputText s = Some (s\<lparr>pc := Waiting True 0\<rparr>)"
      by (simp add: main_step_def while_wait_def)
    moreover have "steps_left j (s\<lparr>pc := Waiting True 0\<rparr>) < steps_left j s"
      using Spawning \<open>iThr = j\<close> by (simp add: steps_left_def)
    ultimately show ?thesis by blast
  qed
next
  case (Waiting wait k)
  with assms(2) have len: "length (futures s) = j" and kj: "k \<le> j"
    and first: "k = 0 \<or> \<not> wait"
    by (simp_all add: thread_inv_def pc_ok_def)
  show ?thesis
  proof (cases "k < j")
    case True
    with assms(3) len obtain r where "futures s ! k = Ready r" by auto
    with Waiting True len
    have "main_step j inputText s = Some (s\<lparr>pc := Waiting False (k + 1)\<rparr>)"
      by (simp add: main_step_def)
    moreover have "steps_left j (s\<lparr>pc := Waiting False (k + 1)\<rparr>) < steps_left j s"
      using Waiting True by (simp add: steps_left_def)
    ultimately show ?thesis by blast
  next
    case False
    with kj have "k = j" by simp
    with first assms(1) have "\<not> wait" by simp
    with Waiting \<open>k = j\<close> len
    have "main_step j inputText s = Some (s\<lparr>pc := Getting 0 []\<rparr>)"
      by (simp add: main_step_def while_wait_def)
    moreover have "steps_left j (s\<lparr>pc := Getting 0 []\<rparr>) < steps_left j s"
      using Waiting \<open>k = j\<close> by (simp add: steps_left_def)
    ultimately show ?thesis by blast
  qed
next
  case (Getting k outputText)
  with assms(2) have len: "length (futures s) = j" and kj: "k \<le> j"
    by (simp_all add: thread_inv_def pc_ok_def)
  show ?thesis
  proof (cases "k < j")
    case True
    with assms(3) len obtain r where "futures s ! k = Ready r" by auto
    with Getting True len
    have "main_step j inputText s = Some (s\<lparr>pc := Getting (k + 1) (outputText @ r)\<rparr>)"
      by (simp add: main_step_def)
    moreover have "steps_left j (s\<lparr>pc := Getting (k + 1) (outputText @ r)\<rparr>) < steps_left j s"
      using Getting True by (simp add: steps_left_def)
    ultimately show ?thesis by blast
  next
    case False
    with kj have "k = j" by simp
    with Getting len
    have "main_step j inputText s = Some (s\<lparr>pc := Joined outputText\<rparr>)"
      by (simp add: main_step_def)
    moreover have "steps_left j (s\<lparr>pc := Joined outputText\<rparr>) < steps_left j s"
      using Getting \<open>k = j\<close> by (simp add: steps_left_def)
    ultimately show ?thesis by blast
  qed
next
  case (Joined outputText)
  with assms(4) show ?thesis by simp
next
  case (Thrown ex)
  with assms(2) show ?thesis by (simp add: thread_inv_def pc_ok_def)
qed

lemma progress:
  assumes "0 < j" and "thread_inv j cipher mode inputText s"
    and "\<forall>t. pc s \<noteq> Joined t"
  shows "\<exists>a s'. step j cipher mode inputText a s = Some s' \<and> steps_left j s' < steps_left j s"
proof (cases "(\<exists>iThr. pc s = Spawning iThr \<and> iThr < j)
    \<or> (\<forall>i < length (futures s). \<exists>r. futures s ! i = Ready r)")
  case True
  then have "\<exists>s'. main_step j inputText s = Some s' \<and> steps_left j s' < steps_left j s"
  proof
    assume "\<exists>iThr. pc s = Spawning iThr \<and> iThr < j"
    then obtain iThr where sp: "pc s = Spawning iThr" and lt: "iThr < j" by blast
    with assms(2) have k: "iThr = length (futures s)"
      by (simp add: thread_inv_def pc_ok_def)
    have "inTextChunk j inputText iThr = Inr (slice j inputText iThr)"
      by (rule inTextChunk_slice [OF lt])
    with sp lt
    have "main_step j inputText s
      = Some (s\<lparr>futures := futures s @ [Launched (slice j inputText iThr)],
                 pc := Spawning (iThr + 1)\<rparr>)"
      by (simp add: main_step_def)
    moreover have "steps_left j (s\<lparr>futures := futures s @ [Launched (slice j inputText iThr)],
                 pc := Spawning (iThr + 1)\<rparr>) < steps_left j s"
      using lt k sp by (simp add: steps_left_def)
    ultimately show ?thesis by blast
  next
    assume "\<forall>i < length (futures s). \<exists>r. futures s ! i = Ready r"
    then show ?thesis by (rule main_progress [OF assms(1,2) _ assms(3)])
  qed
  then obtain s' where "step j cipher mode inputText MainThread s = Some s'"
    and "steps_left j s' < steps_left j s"
    by (auto simp: step_def)
  then show ?thesis by blast
next
  case False
  then obtain i where i: "i < length (futures s)" and nr: "\<forall>r. futures s ! i \<noteq> Ready r"
    by blast
  from worker_progress [OF i nr, of cipher mode j]
  obtain s' where "step j cipher mode inputText (Worker i) s = Some s'"
    and "steps_left j s' < steps_left j s"
    by (auto simp: step_def)
  then show ?thesis by blast
qed

lemma continues_to_joined:
  assumes "0 < j" and "thread_inv j cipher mode inputText s"
  shows "\<exists>rest s' outputText.
      exec j cipher mode inputText rest s = Some s' \<and> pc s' = Joined outputText"
  using assms(2)
proof (induction "steps_left j s" arbitrary: s rule: less_induct)
  case less
  show ?case
  proof (cases "\<exists>t. pc s = Joined t")
    case True
    then obtain t where "pc s = Joined t" by blast
    then have "exec j cipher mode inputText [] s = Some s \<and> pc s = Joined t" by simp
    then show ?thesis by blast
  next
    case False
    then have "\<forall>t. pc s \<noteq> Joined t" by simp
    from progress [OF assms(1) less.prems this]
    obtain a s1 where st: "step j cipher mode inputText a s = Some s1"
      and lt: "steps_left j s1 < steps_left j s" by blast
    have "thread_inv j cipher mode inputText s1"
      by (rule inv_step [OF assms(1) less.prems st])
    from less.hyps [OF lt this]
    obtain rest s' outputText where
      "exec j cipher mode inputText rest s1 = Some s'" and "pc s' = Joined outputText"
      by blast
    with st have "exec j cipher mode inputText (a # rest) s = Some s' \<and> pc s' = Joined outputText"
      by simp
    then show ?thesis by blast
  qed
qed

section \<open>Facts about the sanitizer and the ciphers\<close>

lemma of_char_toupper:
  assumes "islower c"
  shows "(of_char (toupper c) :: nat) = of_char c - 32"
proof -
  have "(of_char c :: nat) - 32 < 256" using assms unfolding islower_def by linarith
  then show ?thesis using assms by (simp add: toupper_def)
qed

lemma isupper_toupper:
  assumes "isalpha c"
  shows "isupper (toupper c)"
proof (cases "islower c")
  case True
  then have "97 \<le> (of_char c :: nat)" and "(of_char c :: nat) \<le> 122"
    by (simp_all add: islower_def)
  then have "65 \<le> (of_char c :: nat) - 32 \<and> (of_char c :: nat) - 32 \<le> 90"
    by linarith
  then show ?thesis
    by (simp add: isupper_def of_char_toupper [OF True])
next
  case False
  with assms show ?thesis by (simp add: isalpha_def toupper_def)
qed

lemma toupper_idem: "toupper (toupper c) = toupper c"
proof (cases "islower c")
  case True
  then have "isupper (toupper c)" by (simp add: isupper_toupper isalpha_def)
  then have "\<not> islower (toupper c)" by (simp add: isupper_def islower_def)
  then show ?thesis by (simp add: toupper_def)
next
  case False
  then show ?thesis by (simp add: toupper_def)
qed

lemma digit_not_alpha: "isdigit c \<Longrightarrow> \<not> isalpha c"
  by (simp add: isdigit_def isalpha_def isupper_def islower_def)

lemma distributes_empty:
  assumes "\<forall>a b. (cipher :: cipher) (a @ b) mode = cipher a mode @ cipher b mode"
  shows "cipher [] mode = []"
proof -
  from assms have "cipher ([] @ []) mode = cipher [] mode @ cipher [] mode" by blast
  then have "length (cipher [] mode) = length (cipher [] mode) + length (cipher [] mode)"
    by (metis append_Nil length_append)
  then show ?thesis by simp
qed

lemma distributes_concat:
  assumes "\<forall>a b. (cipher :: cipher) (a @ b) mode = cipher a mode @ cipher b mode"
  shows "concat (map (\<lambda>c. cipher c mode) cs) = cipher (concat cs) mode"
proof (induction cs)
  case Nil
  show ?case using distributes_empty [where cipher = cipher and mode = mode, OF assms] by simp
next
  case (Cons c cs)
  then show ?case using assms by simp
qed

lemma caesar_distributes:
  "caesar_apply k (a @ b) mode = caesar_apply k a mode @ caesar_apply k b mode"
  by (simp add: caesar_apply_def)

text \<open>Decrypting what the modelled Caesar and Vigenere ciphers encrypted gives the text
  back, for every key and every text.\<close>

lemma isupper_int:
  "isupper c \<longleftrightarrow> 65 \<le> (of_char c :: int) \<and> (of_char c :: int) \<le> 90"
proof -
  have "(of_char c :: int) = int (of_char c)" by (simp add: of_char_def)
  then show ?thesis by (simp add: isupper_def)
qed

lemma of_char_letter:
  assumes "0 \<le> x" and "x < 26"
  shows "(of_char (char_of (65 + x :: int)) :: int) = 65 + x"
proof -
  have "(65 + x) mod 256 = 65 + x" using assms by simp
  then show ?thesis by (simp only: of_char_of)
qed

lemma isupper_shift_char: "isupper (shift_char k mode c) = isupper c"
proof (cases "isupper c")
  case True
  obtain x where x: "x = (case mode of Encrypt \<Rightarrow> (of_char c - 65 + k) mod 26
                                  | Decrypt \<Rightarrow> (of_char c - 65 - k) mod 26)" by simp
  then have "0 \<le> x" and "x < 26" by (simp_all split: CipherMode.splits)
  then have "(of_char (char_of (65 + x)) :: int) = 65 + x" by (rule of_char_letter)
  then have "isupper (char_of (65 + x))"
    using \<open>0 \<le> x\<close> \<open>x < 26\<close> by (simp add: isupper_int)
  with True x show ?thesis by (simp add: shift_char_def)
next
  case False
  then show ?thesis by (simp add: shift_char_def)
qed

lemma shift_char_roundtrip: "shift_char k Decrypt (shift_char k Encrypt c) = c"
proof (cases "isupper c")
  case True
  let ?x = "of_char c - 65 :: int"
  from True have x: "0 \<le> ?x" "?x < 26" by (simp_all add: isupper_int)
  have enc: "shift_char k Encrypt c = char_of (65 + (?x + k) mod 26)"
    using True by (simp add: shift_char_def)
  have cd: "(of_char (char_of (65 + (?x + k) mod 26)) :: int) = 65 + (?x + k) mod 26"
    by (rule of_char_letter) simp_all
  have up: "isupper (char_of (65 + (?x + k) mod 26))"
    using isupper_shift_char [of k Encrypt c] True by (simp add: enc)
  have "((?x + k) mod 26 - k) mod 26 = ?x mod 26"
    by (simp add: mod_diff_left_eq)
  also have "\<dots> = ?x" using x by simp
  finally have undo: "((?x + k) mod 26 - k) mod 26 = ?x" .
  have "shift_char k Decrypt (char_of (65 + (?x + k) mod 26)) = char_of (65 + ?x)"
    using up by (simp add: shift_char_def cd undo)
  then show ?thesis by (simp add: enc)
next
  case False
  then show ?thesis by (simp add: shift_char_def)
qed

lemma caesar_roundtrip:
  "caesar_apply k (caesar_apply k inputText Encrypt) Decrypt = inputText"
  by (simp add: caesar_apply_def shift_char_roundtrip comp_def)

lemma vigenere_from_roundtrip:
  "vigenere_from key Decrypt p (vigenere_from key Encrypt p inputText) = inputText"
  by (induction inputText arbitrary: p)
     (simp_all add: isupper_shift_char shift_char_roundtrip)

lemma vigenere_roundtrip:
  "vigenere_apply key (vigenere_apply key inputText Encrypt) Decrypt = inputText"
  by (simp add: vigenere_apply_def vigenere_from_roundtrip)

section \<open>Chunked against sequential application\<close>

text \<open>
  C1, amended. For every text, every mode, every worker count \<open>N\<close> of at least one and
  every cipher whose \<^verbatim>\<open>applyCipher\<close> distributes over concatenation, as a cipher that
  transforms each character on its own does (the Caesar cipher is one), applying the
  cipher chunk by chunk and putting the results together in chunk order gives what one
  application to the whole text gives.
\<close>

theorem chunked_equals_sequential:
  assumes "0 < N"
    and "\<forall>a b. cipher (a @ b) mode = cipher a mode @ cipher b mode"
  shows "applyChunked N cipher mode inputText = Inr (cipher inputText mode)"
proof -
  have "applyChunked N cipher mode inputText
      = Inr (concat (map (\<lambda>c. cipher c mode) (map (slice N inputText) [0..<N])))"
    by (simp add: applyChunked_def chunks_slices [OF assms(1)] get_all_concat)
  also have "concat (map (\<lambda>c. cipher c mode) (map (slice N inputText) [0..<N]))
      = cipher (concat (map (slice N inputText) [0..<N])) mode"
    by (rule distributes_concat [where cipher = cipher and mode = mode, OF assms(2)])
  also have "concat (map (slice N inputText) [0..<N]) = inputText"
    by (rule concat_slices [OF assms(1)])
  finally show ?thesis .
qed

theorem chunked_equals_sequential_witness:
  "(0::nat) < 4
   \<and> (\<forall>a b. caesar_apply 3 (a @ b) Encrypt = caesar_apply 3 a Encrypt @ caesar_apply 3 b Encrypt)
   \<and> applyChunked 4 (caesar_apply 3) Encrypt ''ATTACKATDAWN''
       = Inr (caesar_apply 3 ''ATTACKATDAWN'' Encrypt)
   \<and> caesar_apply 3 ''ATTACKATDAWN'' Encrypt = ''DWWDFNDWGDZQ''"
proof -
  have pos: "(0::nat) < 4" by simp
  have dist: "\<forall>a b. caesar_apply 3 (a @ b) Encrypt
      = caesar_apply 3 a Encrypt @ caesar_apply 3 b Encrypt"
    by (simp add: caesar_distributes)
  have "caesar_apply 3 ''ATTACKATDAWN'' Encrypt = ''DWWDFNDWGDZQ''" by code_simp
  with pos dist
    chunked_equals_sequential [where cipher = "caesar_apply 3" and mode = Encrypt
      and N = 4 and inputText = "''ATTACKATDAWN''", OF pos dist]
  show ?thesis by blast
qed

text \<open>C1 as stated, for all three ciphers, does not hold of the Vigenere cipher: with the
  keyword AB the five letters AAAAA are cut into A, A, A and AA, every chunk starts at
  the first keyword letter, and the program's text differs from the sequential one.\<close>

theorem chunked_vigenere_counterexample:
  "sanitized ''AAAAA'' \<and> alphabetic_key ''AB''
   \<and> vigenere_apply ''AB'' ''AAAAA'' Encrypt = ''ABABA''
   \<and> applyChunked main_j (vigenere_apply ''AB'') Encrypt ''AAAAA'' = Inr ''AAAAB''
   \<and> applyChunked main_j (vigenere_apply ''AB'') Encrypt ''AAAAA''
       \<noteq> Inr (vigenere_apply ''AB'' ''AAAAA'' Encrypt)"
proof -
  have "sanitized ''AAAAA''" by code_simp
  moreover have "alphabetic_key ''AB''" by code_simp
  moreover have s: "vigenere_apply ''AB'' ''AAAAA'' Encrypt = ''ABABA''" by code_simp
  moreover have c: "applyChunked main_j (vigenere_apply ''AB'') Encrypt ''AAAAA'' = Inr ''AAAAB''"
    by code_simp
  moreover have "applyChunked main_j (vigenere_apply ''AB'') Encrypt ''AAAAA''
       \<noteq> Inr (vigenere_apply ''AB'' ''AAAAA'' Encrypt)"
    by (simp only: s c) simp
  ultimately show ?thesis by blast
qed

section \<open>The cut keeps the text\<close>

text \<open>
  C3. For every text and every worker count \<open>N\<close> of at least one, the cut succeeds and
  yields \<open>N\<close> chunks; each of the first \<open>N - 1\<close> has \<open>length div N\<close> characters, the
  last has \<open>length div N + length mod N\<close>, and the chunks put together in ascending order
  are the text again, no character lost and none twice.
\<close>

theorem split_preserves_text:
  assumes "0 < N"
  shows "\<exists>cs. chunks N inputText = Inr cs \<and> length cs = N
           \<and> (\<forall>i < N - 1. length (cs ! i) = length inputText div N)
           \<and> length (cs ! (N - 1)) = length inputText div N + length inputText mod N
           \<and> concat cs = inputText"
proof -
  let ?cs = "map (slice N inputText) [0..<N]"
  have "chunks N inputText = Inr ?cs" by (rule chunks_slices [OF assms])
  moreover have "length ?cs = N" by simp
  moreover have "\<forall>i < N - 1. length (?cs ! i) = length inputText div N"
    by (simp add: length_slice_inner)
  moreover have "length (?cs ! (N - 1)) = length inputText div N + length inputText mod N"
  proof -
    have "?cs ! (N - 1) = slice N inputText (N - 1)" using assms by simp
    then show ?thesis by (simp only: length_slice_last [OF assms])
  qed
  moreover have "concat ?cs = inputText" by (rule concat_slices [OF assms])
  ultimately show ?thesis by blast
qed

theorem split_preserves_text_witness:
  "(0::nat) < 4
   \<and> chunks 4 ''ATTACKATDAWNX'' = Inr [''ATT'', ''ACK'', ''ATD'', ''AWNX'']
   \<and> (\<exists>cs. chunks 4 ''ATTACKATDAWNX'' = Inr cs \<and> length cs = 4
           \<and> (\<forall>i < 4 - 1. length (cs ! i) = length ''ATTACKATDAWNX'' div 4)
           \<and> length (cs ! (4 - 1)) = length ''ATTACKATDAWNX'' div 4 + length ''ATTACKATDAWNX'' mod 4
           \<and> concat cs = ''ATTACKATDAWNX'')"
proof -
  have pos: "(0::nat) < 4" by simp
  have "chunks 4 ''ATTACKATDAWNX'' = Inr [''ATT'', ''ACK'', ''ATD'', ''AWNX'']"
    by (simp add: chunks_def upt_4 inTextChunk_def substr_def)
  with pos split_preserves_text [OF pos, of "''ATTACKATDAWNX''"] show ?thesis by blast
qed

section \<open>The order of the results\<close>

text \<open>
  C4. Whatever the schedule of the threads, when the main thread has left the loop of
  line 147 every one of the \<open>j\<close> futures is ready and holds the cipher's result on its
  own chunk, and \<^verbatim>\<open>outputText\<close> is these results put together in ascending chunk
  order, the text that reading the futures one after the other gives. There are schedules
  under which the main thread gets there.
\<close>

theorem join_in_slice_order:
  assumes "0 < j"
  shows "(\<forall>schedule s outputText.
            exec j cipher mode inputText schedule (start j) = Some s \<and> pc s = Joined outputText
            \<longrightarrow> (\<exists>cs. chunks j inputText = Inr cs \<and> length cs = j
                   \<and> futures s = map (\<lambda>c. Ready (cipher c mode)) cs
                   \<and> outputText = concat (map (\<lambda>c. cipher c mode) cs)
                   \<and> applyChunked j cipher mode inputText = Inr outputText))
     \<and> (\<exists>schedule s outputText.
            exec j cipher mode inputText schedule (start j) = Some s \<and> pc s = Joined outputText)"
proof (intro conjI allI impI)
  fix schedule s outputText
  assume run: "exec j cipher mode inputText schedule (start j) = Some s \<and> pc s = Joined outputText"
  let ?cs = "map (slice j inputText) [0..<j]"
  have cs: "chunks j inputText = Inr ?cs" by (rule chunks_slices [OF assms])
  have "futures s = map (\<lambda>i. Ready (cipher (slice j inputText i) mode)) [0..<j]"
    using run by (intro joined_result(1) [OF assms]) blast+
  then have fs: "futures s = map (\<lambda>c. Ready (cipher c mode)) ?cs" by (simp add: comp_def)
  have "outputText = concat (map (\<lambda>i. cipher (slice j inputText i) mode) [0..<j])"
    using run by (intro joined_result(2) [OF assms]) blast+
  then have out: "outputText = concat (map (\<lambda>c. cipher c mode) ?cs)" by (simp add: comp_def)
  have "applyChunked j cipher mode inputText = Inr outputText"
    by (simp add: applyChunked_def cs get_all_concat out)
  with cs fs out
  show "\<exists>cs. chunks j inputText = Inr cs \<and> length cs = j
           \<and> futures s = map (\<lambda>c. Ready (cipher c mode)) cs
           \<and> outputText = concat (map (\<lambda>c. cipher c mode) cs)
           \<and> applyChunked j cipher mode inputText = Inr outputText"
    by (intro exI [of _ ?cs]) simp
next
  from in_turn_joins [OF assms, of cipher mode inputText]
  show "\<exists>schedule s outputText.
      exec j cipher mode inputText schedule (start j) = Some s \<and> pc s = Joined outputText"
    by blast
qed

theorem join_in_slice_order_witness:
  "exec main_j (caesar_apply 3) Encrypt ''ATTACKATDAWN''
     [MainThread, MainThread, MainThread, MainThread, MainThread,
      Worker 3, Worker 3, MainThread, Worker 1, Worker 1, Worker 0, Worker 0,
      MainThread, MainThread, MainThread, MainThread, MainThread,
      Worker 2, Worker 2, MainThread, MainThread, MainThread] (start main_j)
    = Some \<lparr>futures = [Ready ''DWW'', Ready ''DFN'', Ready ''DWG'', Ready ''DZQ''],
             pc = Joined ''DWWDFNDWGDZQ'',
             cout_log = [''[thread] Wait for it...'' @ endl, ''[thread] Done!'' @ endl,
                         ''[thread] Wait for it...'' @ endl, ''[thread] Done!'' @ endl,
                         ''[thread] Wait for it...'' @ endl, ''[thread] Done!'' @ endl,
                         ''[thread] Wait for it...'' @ endl, ''[thread] Done!'' @ endl]\<rparr>
   \<and> (\<exists>cs. chunks main_j ''ATTACKATDAWN'' = Inr cs \<and> length cs = main_j
           \<and> [Ready ''DWW'', Ready ''DFN'', Ready ''DWG'', Ready ''DZQ'']
                = map (\<lambda>c. Ready (caesar_apply 3 c Encrypt)) cs
           \<and> ''DWWDFNDWGDZQ'' = concat (map (\<lambda>c. caesar_apply 3 c Encrypt) cs)
           \<and> applyChunked main_j (caesar_apply 3) Encrypt ''ATTACKATDAWN'' = Inr ''DWWDFNDWGDZQ'')"
proof -
  let ?s = "\<lparr>futures = [Ready ''DWW'', Ready ''DFN'', Ready ''DWG'', Ready ''DZQ''],
             pc = Joined ''DWWDFNDWGDZQ'',
             cout_log = [''[thread] Wait for it...'' @ endl, ''[thread] Done!'' @ endl,
                         ''[thread] Wait for it...'' @ endl, ''[thread] Done!'' @ endl,
                         ''[thread] Wait for it...'' @ endl, ''[thread] Done!'' @ endl,
                         ''[thread] Wait for it...'' @ endl, ''[thread] Done!'' @ endl]\<rparr>"
  let ?schedule = "[MainThread, MainThread, MainThread, MainThread, MainThread,
      Worker 3, Worker 3, MainThread, Worker 1, Worker 1, Worker 0, Worker 0,
      MainThread, MainThread, MainThread, MainThread, MainThread,
      Worker 2, Worker 2, MainThread, MainThread, MainThread]"
  have pos: "0 < main_j" by (simp add: main_j_def)
  have run: "exec main_j (caesar_apply 3) Encrypt ''ATTACKATDAWN'' ?schedule (start main_j)
      = Some ?s"
    by code_simp
  have pcs: "pc ?s = Joined ''DWWDFNDWGDZQ''" by simp
  from join_in_slice_order [OF pos, of "caesar_apply 3" Encrypt "''ATTACKATDAWN''"]
  have "exec main_j (caesar_apply 3) Encrypt ''ATTACKATDAWN'' ?schedule (start main_j) = Some ?s
          \<and> pc ?s = Joined ''DWWDFNDWGDZQ''
        \<longrightarrow> (\<exists>cs. chunks main_j ''ATTACKATDAWN'' = Inr cs \<and> length cs = main_j
           \<and> futures ?s = map (\<lambda>c. Ready (caesar_apply 3 c Encrypt)) cs
           \<and> ''DWWDFNDWGDZQ'' = concat (map (\<lambda>c. caesar_apply 3 c Encrypt) cs)
           \<and> applyChunked main_j (caesar_apply 3) Encrypt ''ATTACKATDAWN'' = Inr ''DWWDFNDWGDZQ'')"
    by blast
  with run pcs show ?thesis by simp
qed

section \<open>A cipher that cannot be constructed\<close>

text \<open>
  C5. When the factory returns no cipher for the type and key of the settings, a run
  that has come as far as the factory writes the error line to \<^verbatim>\<open>std::cerr\<close> and
  returns 1, not the 0 of a run that succeeds; it starts no worker, so the cipher is
  never applied, and it writes no output text, neither to \<^verbatim>\<open>std::cout\<close> nor to a
  file.
\<close>

theorem construction_failure_aborts:
  assumes "processCommandLine e cmdLineArgs initial_settings = (True, settings)"
    and "\<not> helpRequested settings" and "\<not> versionRequested settings"
    and "read_input e settings = Some inputText"
    and "cipherFactory e (cipherType settings) (cipherKey settings) = None"
  shows "main_run e cmdLineArgs
     = Inr \<lparr>exit_code = 1, cout_main = [],
            cerr = ''[error] problem constructing requested cipher'' @ endl,
            written = None, dispatched = []\<rparr>"
proof -
  have "main_run e cmdLineArgs
     = Inr ((returning 1)\<lparr>cerr := ''[error] problem constructing requested cipher'' @ endl\<rparr>)"
    by (simp only: main_run_after_input [OF assms(1-4)] assms(5) option.case)
  then show ?thesis by (simp add: returning_def)
qed

theorem construction_failure_aborts_witness:
  "\<forall>playfair.
     cipherFactory_spec playfair Playfair '''' = None
     \<and> main_run
        \<lparr>processCommandLine = (\<lambda>args settings. (True, settings\<lparr>cipherType := Playfair\<rparr>)),
         transformChar = transformChar_spec,
         cipherFactory = cipherFactory_spec playfair,
         ifstream = (\<lambda>name. None),
         cin = ''Attack at Dawn!'',
         ofstream_good = (\<lambda>name. True)\<rparr> [''mpags-cipher'', ''-c'', ''playfair'']
       = Inr \<lparr>exit_code = 1, cout_main = [],
              cerr = ''[error] problem constructing requested cipher'' @ endl,
              written = None, dispatched = []\<rparr>"
proof
  fix playfair :: "string \<Rightarrow> cipher"
  let ?settings = "initial_settings\<lparr>cipherType := Playfair\<rparr>"
  let ?e = "\<lparr>processCommandLine = (\<lambda>args settings. (True, settings\<lparr>cipherType := Playfair\<rparr>)),
         transformChar = transformChar_spec,
         cipherFactory = cipherFactory_spec playfair,
         ifstream = (\<lambda>name. None),
         cin = ''Attack at Dawn!'',
         ofstream_good = (\<lambda>name. True)\<rparr>"
  have no: "cipherFactory_spec playfair Playfair '''' = None"
    by (simp add: cipherFactory_spec_def alphabetic_key_def)
  have cl: "processCommandLine ?e [''mpags-cipher'', ''-c'', ''playfair''] initial_settings
      = (True, ?settings)" by simp
  have nh: "\<not> helpRequested ?settings" and nv: "\<not> versionRequested ?settings"
    by (simp_all add: initial_settings_def)
  have ri: "read_input ?e ?settings = Some (read_loop transformChar_spec [] ''Attack at Dawn!'')"
    by (simp add: read_input_def initial_settings_def del: read_loop.simps)
  have fac: "cipherFactory ?e (cipherType ?settings) (cipherKey ?settings) = None"
    by (simp add: initial_settings_def no)
  from no construction_failure_aborts [OF cl nh nv ri fac]
  show "cipherFactory_spec playfair Playfair '''' = None \<and>
     main_run ?e [''mpags-cipher'', ''-c'', ''playfair'']
       = Inr \<lparr>exit_code = 1, cout_main = [],
              cerr = ''[error] problem constructing requested cipher'' @ endl,
              written = None, dispatched = []\<rparr>"
    by (rule conjI)
qed

section \<open>A text shorter than the number of workers\<close>

text \<open>
  C6, amended. For a text of fewer than four characters the program still
  starts its four workers: the first three are given the empty text and the fourth the
  whole text, and the output is the four results in this order. It is the output of a
  single worker whenever the cipher maps the empty text to the empty text.
\<close>

theorem short_text_four_workers:
  assumes "length inputText < main_j"
  shows "chunks main_j inputText = Inr ['''', '''', '''', inputText]
     \<and> applyChunked main_j cipher mode inputText
         = Inr (cipher '''' mode @ cipher '''' mode @ cipher '''' mode @ cipher inputText mode)
     \<and> applyChunked 1 cipher mode inputText = Inr (cipher inputText mode)
     \<and> (cipher '''' mode = '''' \<longrightarrow>
          applyChunked main_j cipher mode inputText = applyChunked 1 cipher mode inputText)"
proof -
  from assms have short: "length inputText < 4" by (simp add: main_j_def)
  have four: "chunks main_j inputText = Inr ['''', '''', '''', inputText]"
    by (rule chunks_short [OF short])
  have ap4: "applyChunked main_j cipher mode inputText
         = Inr (cipher '''' mode @ cipher '''' mode @ cipher '''' mode @ cipher inputText mode)"
    by (simp add: applyChunked_def four)
  have ap1: "applyChunked 1 cipher mode inputText = Inr (cipher inputText mode)"
    by (simp add: applyChunked_def chunks_slices slice_def)
  show ?thesis using four ap4 ap1 by simp
qed

theorem short_text_four_workers_witness:
  "length ''AB'' < main_j
   \<and> chunks main_j ''AB'' = Inr ['''', '''', '''', ''AB'']
   \<and> caesar_apply 3 '''' Encrypt = ''''
   \<and> applyChunked main_j (caesar_apply 3) Encrypt ''AB'' = Inr ''DE''
   \<and> applyChunked main_j (caesar_apply 3) Encrypt ''AB''
       = applyChunked 1 (caesar_apply 3) Encrypt ''AB''"
proof -
  have short: "length ''AB'' < main_j" by (simp add: main_j_def)
  have em: "caesar_apply 3 '''' Encrypt = ''''" by (simp add: caesar_apply_def)
  have de: "caesar_apply 3 ''AB'' Encrypt = ''DE''" by code_simp
  from short_text_four_workers [OF short, of "caesar_apply 3" Encrypt] em de
  have "chunks main_j ''AB'' = Inr ['''', '''', '''', ''AB'']"
    and "applyChunked main_j (caesar_apply 3) Encrypt ''AB'' = Inr ''DE''"
    and "applyChunked main_j (caesar_apply 3) Encrypt ''AB''
       = applyChunked 1 (caesar_apply 3) Encrypt ''AB''"
    by simp_all
  with short em show ?thesis by blast
qed

text \<open>C6 as stated, a fall back to one worker, does not hold: for the two letters AB the
  program cuts four chunks and starts four workers, where one worker would get the single
  chunk AB.\<close>

theorem short_text_counterexample:
  "length ''AB'' < main_j
   \<and> chunks main_j ''AB'' = Inr ['''', '''', '''', ''AB'']
   \<and> chunks 1 ''AB'' = Inr [''AB'']
   \<and> chunks main_j ''AB'' \<noteq> chunks 1 ''AB''"
proof -
  have four: "chunks main_j ''AB'' = Inr ['''', '''', '''', ''AB'']" by code_simp
  have one: "chunks 1 ''AB'' = Inr [''AB'']" by code_simp
  have "length ''AB'' < main_j" by (simp add: main_j_def)
  moreover have "chunks main_j ''AB'' \<noteq> chunks 1 ''AB''" by (simp only: four one) simp
  ultimately show ?thesis using four one by blast
qed

section \<open>The scenario of the specification\<close>

text \<open>
  C7. With the Caesar cipher, the key 3 and the mode Encrypt, the input
  \<^verbatim>\<open>Attack at Dawn!\<close> is read as ATTACKATDAWN, and the run prints DWWDFNDWGDZQ.
\<close>

theorem caesar_scenario:
  "read_loop transformChar_spec [] ''Attack at Dawn!'' = ''ATTACKATDAWN''
   \<and> cipherFactory_spec playfair Caesar ''3'' = Some (caesar_apply 3)
   \<and> applyChunked main_j (caesar_apply 3) Encrypt ''ATTACKATDAWN'' = Inr ''DWWDFNDWGDZQ''
   \<and> main_run
        \<lparr>processCommandLine = (\<lambda>args settings. (True, settings\<lparr>cipherKey := ''3''\<rparr>)),
         transformChar = transformChar_spec,
         cipherFactory = cipherFactory_spec playfair,
         ifstream = files,
         cin = ''Attack at Dawn!'',
         ofstream_good = writable\<rparr> cmdLineArgs
       = Inr \<lparr>exit_code = 0, cout_main = ''DWWDFNDWGDZQ'' @ endl, cerr = [], written = None,
              dispatched = [''ATT'', ''ACK'', ''ATD'', ''AWN'']\<rparr>"
proof -
  have rd: "read_loop transformChar_spec [] ''Attack at Dawn!'' = ''ATTACKATDAWN''"
    by code_simp
  have key: "caesar_key ''3'' = Some 3" by code_simp
  have fac: "cipherFactory_spec playfair Caesar ''3'' = Some (caesar_apply 3)"
    by (simp add: cipherFactory_spec_def key)
  have cs: "chunks main_j ''ATTACKATDAWN'' = Inr [''ATT'', ''ACK'', ''ATD'', ''AWN'']"
    by code_simp
  have ap: "applyChunked main_j (caesar_apply 3) Encrypt ''ATTACKATDAWN'' = Inr ''DWWDFNDWGDZQ''"
    by code_simp
  let ?settings = "initial_settings\<lparr>cipherKey := ''3''\<rparr>"
  let ?e = "\<lparr>processCommandLine = (\<lambda>args settings. (True, settings\<lparr>cipherKey := ''3''\<rparr>)),
         transformChar = transformChar_spec,
         cipherFactory = cipherFactory_spec playfair,
         ifstream = files,
         cin = ''Attack at Dawn!'',
         ofstream_good = writable\<rparr>"
  have cl: "processCommandLine ?e cmdLineArgs initial_settings = (True, ?settings)" by simp
  have nh: "\<not> helpRequested ?settings" and nv: "\<not> versionRequested ?settings"
    by (simp_all add: initial_settings_def)
  have ri: "read_input ?e ?settings = Some ''ATTACKATDAWN''"
    by (simp add: read_input_def initial_settings_def rd del: read_loop.simps)
  have fac': "cipherFactory ?e (cipherType ?settings) (cipherKey ?settings) = Some (caesar_apply 3)"
    by (simp add: initial_settings_def fac)
  have md: "cipherMode ?settings = Encrypt" by (simp add: initial_settings_def)
  have wo: "write_output ?e ?settings [''ATT'', ''ACK'', ''ATD'', ''AWN''] ''DWWDFNDWGDZQ''
      = \<lparr>exit_code = 0, cout_main = ''DWWDFNDWGDZQ'' @ endl, cerr = [], written = None,
              dispatched = [''ATT'', ''ACK'', ''ATD'', ''AWN'']\<rparr>"
    by (simp add: write_output_def initial_settings_def returning_def)
  have "main_run ?e cmdLineArgs
       = Inr \<lparr>exit_code = 0, cout_main = ''DWWDFNDWGDZQ'' @ endl, cerr = [], written = None,
              dispatched = [''ATT'', ''ACK'', ''ATD'', ''AWN'']\<rparr>"
    by (simp only: main_run_after_input [OF cl nh nv ri] fac' md cs ap wo
        option.case sum.case)
  with rd fac ap show ?thesis by blast
qed

section \<open>The sanitizer is idempotent\<close>

text \<open>
  C8. The Sanitizer is idempotent: sanitizing the result of sanitizing a character, where
  there is one, gives that result again, and an absent result stays absent. A letter is
  mapped to its upper case form, which is a letter of A to Z; a digit passes unchanged;
  every other character is dropped.
\<close>

theorem sanitize_idempotent:
  "Option.bind (sanitize c) sanitize = sanitize c
   \<and> (isalpha c \<longrightarrow> sanitize c = Some (toupper c) \<and> isupper (toupper c))
   \<and> (isdigit c \<longrightarrow> sanitize c = Some c)
   \<and> (\<not> isalpha c \<and> \<not> isdigit c \<longrightarrow> sanitize c = None)"
proof -
  have idem: "Option.bind (sanitize c) sanitize = sanitize c"
  proof (cases "isalpha c")
    case True
    then have "isalpha (toupper c)" using isupper_toupper by (simp add: isalpha_def)
    with True show ?thesis by (simp add: sanitize_def toupper_idem)
  next
    case False
    then show ?thesis by (simp add: sanitize_def)
  qed
  moreover have "isalpha c \<longrightarrow> sanitize c = Some (toupper c) \<and> isupper (toupper c)"
    by (simp add: sanitize_def isupper_toupper)
  moreover have "isdigit c \<longrightarrow> sanitize c = Some c"
    by (simp add: sanitize_def digit_not_alpha)
  moreover have "\<not> isalpha c \<and> \<not> isdigit c \<longrightarrow> sanitize c = None"
    by (simp add: sanitize_def)
  ultimately show ?thesis by blast
qed

theorem sanitize_idempotent_witness:
  "isalpha CHR ''a'' \<and> sanitize CHR ''a'' = Some CHR ''A''
   \<and> Option.bind (sanitize CHR ''a'') sanitize = Some CHR ''A''
   \<and> isdigit CHR ''7'' \<and> sanitize CHR ''7'' = Some CHR ''7''
   \<and> \<not> isalpha CHR ''!'' \<and> \<not> isdigit CHR ''!'' \<and> sanitize CHR ''!'' = None"
proof -
  have a: "isalpha CHR ''a''" by (simp add: isalpha_def islower_def)
  have up: "toupper CHR ''a'' = CHR ''A''" by code_simp
  have d: "isdigit CHR ''7''" by (simp add: isdigit_def)
  have n: "\<not> isalpha CHR ''!'' \<and> \<not> isdigit CHR ''!''"
    by (simp add: isalpha_def isupper_def islower_def isdigit_def)
  from sanitize_idempotent [of "CHR ''a''"] a
  have s: "sanitize CHR ''a'' = Some (toupper CHR ''a'')"
    and b: "Option.bind (sanitize CHR ''a'') sanitize = sanitize CHR ''a''"
    by blast+
  from s up have s': "sanitize CHR ''a'' = Some CHR ''A''" by (simp only:)
  from b s' have "Option.bind (sanitize CHR ''a'') sanitize = Some CHR ''A''"
    by (simp only:)
  note s' this
  moreover from sanitize_idempotent [of "CHR ''7''"] d
  have "sanitize CHR ''7'' = Some CHR ''7''" by blast
  moreover from sanitize_idempotent [of "CHR ''!''"] n
  have "sanitize CHR ''!'' = None" by blast
  ultimately show ?thesis using a d n by blast
qed

section \<open>The schedule does not show in the output\<close>

text \<open>
  C9. The output text does not depend on the schedule. For a cipher, a mode and a text
  there is one text, the one that reading the futures in index order gives, such that
  under every schedule of the threads: the run is never ended by an exception; when the
  main thread has left the loop of line 147, \<^verbatim>\<open>outputText\<close> is that text; and from
  wherever the run stands it can go on to the end of that loop, holding that text. So two
  runs that reach the end hold the same \<^verbatim>\<open>outputText\<close> and the same results in their
  futures, in whatever order the workers ran and finished. A worker's result is a
  function of its chunk alone, and the results are read by the index of the future.
\<close>

theorem output_independent_of_schedule:
  assumes "0 < j"
  shows "\<exists>outputText.
      applyChunked j cipher mode inputText = Inr outputText
      \<and> (\<forall>schedule s.
            exec j cipher mode inputText schedule (start j) = Some s \<longrightarrow>
              (\<forall>ex. pc s \<noteq> Thrown ex)
              \<and> (\<forall>t. pc s = Joined t \<longrightarrow> t = outputText)
              \<and> (\<exists>rest s'. exec j cipher mode inputText rest s = Some s'
                     \<and> pc s' = Joined outputText))
      \<and> (\<forall>schedule1 s1 outputText1 schedule2 s2 outputText2.
            exec j cipher mode inputText schedule1 (start j) = Some s1
            \<and> pc s1 = Joined outputText1
            \<and> exec j cipher mode inputText schedule2 (start j) = Some s2
            \<and> pc s2 = Joined outputText2
            \<longrightarrow> outputText1 = outputText2 \<and> futures s1 = futures s2)"
proof -
  let ?out = "concat (map (\<lambda>i. cipher (slice j inputText i) mode) [0..<j])"
  have chunked: "applyChunked j cipher mode inputText = Inr ?out"
    by (rule applyChunked_slices [OF assms])
  have every: "\<forall>schedule s.
            exec j cipher mode inputText schedule (start j) = Some s \<longrightarrow>
              (\<forall>ex. pc s \<noteq> Thrown ex)
              \<and> (\<forall>t. pc s = Joined t \<longrightarrow> t = ?out)
              \<and> (\<exists>rest s'. exec j cipher mode inputText rest s = Some s'
                     \<and> pc s' = Joined ?out)"
  proof (intro allI impI conjI)
    fix schedule s ex
    assume "exec j cipher mode inputText schedule (start j) = Some s"
    then have "thread_inv j cipher mode inputText s"
      by (rule inv_exec [OF assms inv_start [OF assms]])
    then show "pc s \<noteq> Thrown ex" by (rule inv_not_thrown)
  next
    fix schedule s t
    assume "exec j cipher mode inputText schedule (start j) = Some s" and "pc s = Joined t"
    then show "t = ?out" by (rule joined_result(2) [OF assms])
  next
    fix schedule s
    assume "exec j cipher mode inputText schedule (start j) = Some s"
    then have inv: "thread_inv j cipher mode inputText s"
      by (rule inv_exec [OF assms inv_start [OF assms]])
    from continues_to_joined [OF assms inv]
    obtain rest s' t where run: "exec j cipher mode inputText rest s = Some s'"
      and fin: "pc s' = Joined t" by blast
    have "thread_inv j cipher mode inputText s'"
      by (rule inv_exec [OF assms inv run])
    then have "t = ?out" using fin by (rule inv_joined)
    with run fin
    show "\<exists>rest s'. exec j cipher mode inputText rest s = Some s' \<and> pc s' = Joined ?out"
      by blast
  qed
  have two: "\<forall>schedule1 s1 outputText1 schedule2 s2 outputText2.
            exec j cipher mode inputText schedule1 (start j) = Some s1
            \<and> pc s1 = Joined outputText1
            \<and> exec j cipher mode inputText schedule2 (start j) = Some s2
            \<and> pc s2 = Joined outputText2
            \<longrightarrow> outputText1 = outputText2 \<and> futures s1 = futures s2"
  proof (intro allI impI)
    fix schedule1 s1 outputText1 schedule2 s2 outputText2
    assume both: "exec j cipher mode inputText schedule1 (start j) = Some s1
            \<and> pc s1 = Joined outputText1
            \<and> exec j cipher mode inputText schedule2 (start j) = Some s2
            \<and> pc s2 = Joined outputText2"
    then have r1: "exec j cipher mode inputText schedule1 (start j) = Some s1"
      and p1: "pc s1 = Joined outputText1"
      and r2: "exec j cipher mode inputText schedule2 (start j) = Some s2"
      and p2: "pc s2 = Joined outputText2"
      by blast+
    have "outputText1 = ?out" by (rule joined_result(2) [OF assms r1 p1])
    moreover have "outputText2 = ?out" by (rule joined_result(2) [OF assms r2 p2])
    ultimately have texts: "outputText1 = outputText2" by simp
    have "futures s1 = map (\<lambda>i. Ready (cipher (slice j inputText i) mode)) [0..<j]"
      by (rule joined_result(1) [OF assms r1 p1])
    moreover have "futures s2 = map (\<lambda>i. Ready (cipher (slice j inputText i) mode)) [0..<j]"
      by (rule joined_result(1) [OF assms r2 p2])
    ultimately have "futures s1 = futures s2" by simp
    with texts show "outputText1 = outputText2 \<and> futures s1 = futures s2" by simp
  qed
  show ?thesis
    by (rule exI [of _ ?out]) (rule conjI [OF chunked conjI [OF every two]])
qed

theorem output_independent_of_schedule_witness:
  "exec main_j (caesar_apply 3) Encrypt ''ATTACKATDAWN''
     [MainThread, MainThread, MainThread, MainThread, MainThread,
      Worker 3, Worker 3, MainThread, Worker 1, Worker 1, Worker 0, Worker 0,
      MainThread, MainThread, MainThread, MainThread, MainThread,
      Worker 2, Worker 2, MainThread, MainThread, MainThread] (start main_j)
     = Some \<lparr>futures = [Ready ''DWW'', Ready ''DFN'', Ready ''DWG'', Ready ''DZQ''],
             pc = Joined ''DWWDFNDWGDZQ'',
             cout_log =
                [''[thread] Wait for it...'' @ endl,
                 ''[thread] Done!'' @ endl,
                 ''[thread] Wait for it...'' @ endl,
                 ''[thread] Done!'' @ endl,
                 ''[thread] Wait for it...'' @ endl,
                 ''[thread] Done!'' @ endl,
                 ''[thread] Wait for it...'' @ endl,
                 ''[thread] Done!'' @ endl]\<rparr>
   \<and> exec main_j (caesar_apply 3) Encrypt ''ATTACKATDAWN''
     [MainThread, Worker 0, MainThread, MainThread, Worker 1, Worker 0, MainThread,
      Worker 1, Worker 2, Worker 3, Worker 2, Worker 3,
      MainThread, MainThread, MainThread, MainThread, MainThread, MainThread,
      MainThread, MainThread, MainThread, MainThread, MainThread] (start main_j)
     = Some \<lparr>futures = [Ready ''DWW'', Ready ''DFN'', Ready ''DWG'', Ready ''DZQ''],
             pc = Joined ''DWWDFNDWGDZQ'',
             cout_log =
                [''[thread] Wait for it...'' @ endl,
                 ''[thread] Wait for it...'' @ endl,
                 ''[thread] Done!'' @ endl,
                 ''[thread] Done!'' @ endl,
                 ''[thread] Wait for it...'' @ endl,
                 ''[thread] Wait for it...'' @ endl,
                 ''[thread] Done!'' @ endl,
                 ''[thread] Done!'' @ endl]\<rparr>
   \<and> ''DWWDFNDWGDZQ'' = ''DWWDFNDWGDZQ''
   \<and> futures \<lparr>futures = [Ready ''DWW'', Ready ''DFN'', Ready ''DWG'', Ready ''DZQ''],
             pc = Joined ''DWWDFNDWGDZQ'',
             cout_log =
                [''[thread] Wait for it...'' @ endl,
                 ''[thread] Done!'' @ endl,
                 ''[thread] Wait for it...'' @ endl,
                 ''[thread] Done!'' @ endl,
                 ''[thread] Wait for it...'' @ endl,
                 ''[thread] Done!'' @ endl,
                 ''[thread] Wait for it...'' @ endl,
                 ''[thread] Done!'' @ endl]\<rparr>
       = futures \<lparr>futures = [Ready ''DWW'', Ready ''DFN'', Ready ''DWG'', Ready ''DZQ''],
             pc = Joined ''DWWDFNDWGDZQ'',
             cout_log =
                [''[thread] Wait for it...'' @ endl,
                 ''[thread] Wait for it...'' @ endl,
                 ''[thread] Done!'' @ endl,
                 ''[thread] Done!'' @ endl,
                 ''[thread] Wait for it...'' @ endl,
                 ''[thread] Wait for it...'' @ endl,
                 ''[thread] Done!'' @ endl,
                 ''[thread] Done!'' @ endl]\<rparr>"
proof -
  have pos: "0 < main_j" by (simp add: main_j_def)
  have run1: "exec main_j (caesar_apply 3) Encrypt ''ATTACKATDAWN''
     [MainThread, MainThread, MainThread, MainThread, MainThread,
      Worker 3, Worker 3, MainThread, Worker 1, Worker 1, Worker 0, Worker 0,
      MainThread, MainThread, MainThread, MainThread, MainThread,
      Worker 2, Worker 2, MainThread, MainThread, MainThread] (start main_j)
     = Some \<lparr>futures = [Ready ''DWW'', Ready ''DFN'', Ready ''DWG'', Ready ''DZQ''],
             pc = Joined ''DWWDFNDWGDZQ'',
             cout_log =
                [''[thread] Wait for it...'' @ endl,
                 ''[thread] Done!'' @ endl,
                 ''[thread] Wait for it...'' @ endl,
                 ''[thread] Done!'' @ endl,
                 ''[thread] Wait for it...'' @ endl,
                 ''[thread] Done!'' @ endl,
                 ''[thread] Wait for it...'' @ endl,
                 ''[thread] Done!'' @ endl]\<rparr>"
    by code_simp
  have run2: "exec main_j (caesar_apply 3) Encrypt ''ATTACKATDAWN''
     [MainThread, Worker 0, MainThread, MainThread, Worker 1, Worker 0, MainThread,
      Worker 1, Worker 2, Worker 3, Worker 2, Worker 3,
      MainThread, MainThread, MainThread, MainThread, MainThread, MainThread,
      MainThread, MainThread, MainThread, MainThread, MainThread] (start main_j)
     = Some \<lparr>futures = [Ready ''DWW'', Ready ''DFN'', Ready ''DWG'', Ready ''DZQ''],
             pc = Joined ''DWWDFNDWGDZQ'',
             cout_log =
                [''[thread] Wait for it...'' @ endl,
                 ''[thread] Wait for it...'' @ endl,
                 ''[thread] Done!'' @ endl,
                 ''[thread] Done!'' @ endl,
                 ''[thread] Wait for it...'' @ endl,
                 ''[thread] Wait for it...'' @ endl,
                 ''[thread] Done!'' @ endl,
                 ''[thread] Done!'' @ endl]\<rparr>"
    by code_simp
  have pc1: "pc \<lparr>futures = [Ready ''DWW'', Ready ''DFN'', Ready ''DWG'', Ready ''DZQ''],
             pc = Joined ''DWWDFNDWGDZQ'',
             cout_log =
                [''[thread] Wait for it...'' @ endl,
                 ''[thread] Done!'' @ endl,
                 ''[thread] Wait for it...'' @ endl,
                 ''[thread] Done!'' @ endl,
                 ''[thread] Wait for it...'' @ endl,
                 ''[thread] Done!'' @ endl,
                 ''[thread] Wait for it...'' @ endl,
                 ''[thread] Done!'' @ endl]\<rparr> = Joined ''DWWDFNDWGDZQ''" by simp
  have pc2: "pc \<lparr>futures = [Ready ''DWW'', Ready ''DFN'', Ready ''DWG'', Ready ''DZQ''],
             pc = Joined ''DWWDFNDWGDZQ'',
             cout_log =
                [''[thread] Wait for it...'' @ endl,
                 ''[thread] Wait for it...'' @ endl,
                 ''[thread] Done!'' @ endl,
                 ''[thread] Done!'' @ endl,
                 ''[thread] Wait for it...'' @ endl,
                 ''[thread] Wait for it...'' @ endl,
                 ''[thread] Done!'' @ endl,
                 ''[thread] Done!'' @ endl]\<rparr> = Joined ''DWWDFNDWGDZQ''" by simp
  from output_independent_of_schedule [OF pos, of "caesar_apply 3" Encrypt "''ATTACKATDAWN''"]
  obtain outputText where two: "\<forall>schedule1 s1 outputText1 schedule2 s2 outputText2.
            exec main_j (caesar_apply 3) Encrypt ''ATTACKATDAWN'' schedule1 (start main_j) = Some s1
            \<and> pc s1 = Joined outputText1
            \<and> exec main_j (caesar_apply 3) Encrypt ''ATTACKATDAWN'' schedule2 (start main_j) = Some s2
            \<and> pc s2 = Joined outputText2
            \<longrightarrow> outputText1 = outputText2 \<and> futures s1 = futures s2"
    by blast
  note same = two [rule_format, OF conjI [OF run1 conjI [OF pc1 conjI [OF run2 pc2]]]]
  show ?thesis by (rule conjI [OF run1 conjI [OF run2 same]])
qed

section \<open>The cut is safe\<close>

text \<open>
  C10. With the four workers of the program the cut is total: for every text, the empty
  one included, every start offset \<open>iThr * (length div 4)\<close> handed to \<^verbatim>\<open>substr\<close> is at
  most the length of the text, every extraction returns a chunk, and the loop as a whole
  returns its chunks; a text of fewer than four characters gives three empty chunks
  followed by the whole text.
\<close>

theorem chunk_extraction_safe:
  "(\<forall>iThr < main_j. iThr * (length inputText div main_j) \<le> length inputText
        \<and> (\<exists>c. substr inputText (iThr * (length inputText div main_j))
                  (if iThr \<noteq> main_j - 1 then length inputText div main_j
                   else length inputText div main_j + length inputText mod main_j) = Inr c
               \<and> inTextChunk main_j inputText iThr = Inr c))
   \<and> (\<exists>cs. chunks main_j inputText = Inr cs)
   \<and> (length inputText < 4 \<longrightarrow> chunks main_j inputText = Inr ['''', '''', '''', inputText])"
proof -
  have "iThr * (length inputText div main_j) \<le> length inputText
        \<and> (\<exists>c. substr inputText (iThr * (length inputText div main_j))
                  (if iThr \<noteq> main_j - 1 then length inputText div main_j
                   else length inputText div main_j + length inputText mod main_j) = Inr c
               \<and> inTextChunk main_j inputText iThr = Inr c)"
    if "iThr < main_j" for iThr
  proof -
    have le: "iThr * (length inputText div main_j) \<le> length inputText"
      by (rule offset_le_size [OF that])
    have "inTextChunk main_j inputText iThr = Inr (slice main_j inputText iThr)"
      by (rule inTextChunk_slice [OF that])
    then show ?thesis
      using le by (auto simp: inTextChunk_def Let_def)
  qed
  moreover have "\<exists>cs. chunks main_j inputText = Inr cs"
    by (simp add: chunks_slices main_j_def)
  moreover have "length inputText < 4 \<longrightarrow> chunks main_j inputText = Inr ['''', '''', '''', inputText]"
    by (simp add: chunks_short)
  ultimately show ?thesis by blast
qed

theorem chunk_extraction_safe_witness:
  "chunks main_j '''' = Inr ['''', '''', '''', '''']
   \<and> length ''AB'' < 4
   \<and> chunks main_j ''AB'' = Inr ['''', '''', '''', ''AB'']
   \<and> inTextChunk main_j ''AB'' 3 = Inr ''AB''
   \<and> (3::nat) * (length ''AB'' div main_j) \<le> length ''AB''"
proof -
  have short: "length ''AB'' < 4" by simp
  from chunk_extraction_safe [of "''AB''"] short
  have ab: "chunks main_j ''AB'' = Inr ['''', '''', '''', ''AB'']" by blast
  from chunk_extraction_safe [of "''''"]
  have em: "chunks main_j '''' = Inr ['''', '''', '''', '''']" by simp
  have "inTextChunk main_j ''AB'' 3 = Inr ''AB''"
    by (simp add: main_j_def inTextChunk_def substr_def)
  moreover have "(3::nat) * (length ''AB'' div main_j) \<le> length ''AB''"
    by (simp add: main_j_def)
  ultimately show ?thesis using ab em short by blast
qed

end
